theory Spec2Isabelle
  imports Complex_Main "HOL-Library.AList" "HOL-Library.List_Lexorder" "HOL-Library.Char_ord"
begin

section \<open>The chunked progress estimate\<close>

text \<open>
  \<^verbatim>\<open>lithium.py\<close> imports \<^verbatim>\<open>largest_power_of_two_smaller_than\<close> and
  \<^verbatim>\<open>divide_rounding_up\<close> from the lithium package. Python integers are unbounded, so
  lengths are \<open>int\<close>. The statement \<^verbatim>\<open>chunk_size /= 2\<close> is true division: from the
  second round of the loop on \<^verbatim>\<open>chunk_size\<close> is a float. The model keeps it as an exact
  rational, which is what the float holds for every chunk size below \<open>2 ^ 53\<close> (a halved
  integer of that size has an exact binary representation) and a length below \<open>2 ^ 53\<close>.
\<close>

fun bit_length :: "nat \<Rightarrow> nat" where
  "bit_length n = (if n = 0 then 0 else Suc (bit_length (n div 2)))"

declare bit_length.simps [simp del]

text \<open>
  Modelled from the spec: \<^verbatim>\<open>lithium.util.largest_power_of_two_smaller_than\<close> belongs to
  the lithium package. The spec calls its result the largest power of two strictly less
  than the argument. The helper computes \<^verbatim>\<open>1 << max(num.bit_length() - 1, 0)\<close> and halves
  that when it equals \<^verbatim>\<open>num\<close> and \<^verbatim>\<open>num > 1\<close>; for an argument below 2, where no power
  of two lies strictly below, it therefore returns 1.
\<close>

definition largest_power_of_two_smaller_than :: "int \<Rightarrow> int" where
  "largest_power_of_two_smaller_than num =
     (let result = 2 ^ (bit_length (nat \<bar>num\<bar>) - 1) in
      if result = num \<and> num > 1 then result div 2 else result)"

text \<open>
  Modelled from the spec: \<^verbatim>\<open>lithium.util.divide_rounding_up\<close> (\<open>ceil(length / chunk_size)\<close>
  in the spec) is \<^verbatim>\<open>(n // d) + (1 if n % d else 0)\<close>. The denominator is the chunk size, an
  integer or a float; the loop below only calls it with a denominator above 1.
\<close>

definition divide_rounding_up :: "int \<Rightarrow> rat \<Rightarrow> int" where
  "divide_rounding_up numerator denominator =
     (let q = \<lfloor>of_int numerator / denominator\<rfloor> in
      q + (if of_int numerator - denominator * of_int q \<noteq> 0 then 1 else 0))"

text \<open>
  The \<^verbatim>\<open>while chunk_size > 1\<close> loop of \<^verbatim>\<open>_chunk_iters\<close> (lines 89 to 91). Every value
  added to \<^verbatim>\<open>result\<close> is a whole number, so \<^verbatim>\<open>int(result)\<close> at the end changes nothing and
  the accumulator is an \<open>int\<close>.
\<close>

function chunk_iters_loop :: "int \<Rightarrow> rat \<Rightarrow> int \<Rightarrow> int" where
  "chunk_iters_loop len chunk_size result =
     (if chunk_size > 1
      then chunk_iters_loop len (chunk_size / 2) (result + divide_rounding_up len chunk_size)
      else result)"
  by pat_completeness auto
termination
proof (relation "measure (\<lambda>(len, chunk_size, result). nat \<lfloor>chunk_size\<rfloor>)")
  show "wf (measure (\<lambda>(len, chunk_size, result). nat \<lfloor>chunk_size\<rfloor>))"
    by simp
next
  fix len :: int and chunk_size :: rat and result :: int
  assume gt: "1 < chunk_size"
  have one: "1 \<le> \<lfloor>chunk_size\<rfloor>"
    using gt by (simp add: le_floor_iff)
  have "chunk_size < of_int \<lfloor>chunk_size\<rfloor> + 1"
    by linarith
  also have "\<dots> \<le> 2 * of_int \<lfloor>chunk_size\<rfloor>"
    using one by simp
  finally have "chunk_size / 2 < of_int \<lfloor>chunk_size\<rfloor>"
    by simp
  then have "\<lfloor>chunk_size / 2\<rfloor> < \<lfloor>chunk_size\<rfloor>"
    by (simp add: floor_less_iff)
  then show "((len, chunk_size / 2, result + divide_rounding_up len chunk_size),
              (len, chunk_size, result))
             \<in> measure (\<lambda>(len, chunk_size, result). nat \<lfloor>chunk_size\<rfloor>)"
    using one by simp
qed

declare chunk_iters_loop.simps [simp del]

text \<open>\<^verbatim>\<open>_LithiumStrategy._chunk_iters\<close> (lines 73 to 92).\<close>

definition chunk_iters :: "int \<Rightarrow> int \<Rightarrow> int" where
  "chunk_iters len chunk_size =
     (if len = chunk_size then chunk_size * 3 - 1
      else chunk_iters_loop len (of_int chunk_size) (2 * len))"

text \<open>\<^verbatim>\<open>_LithiumStrategy._possible_iters\<close> (lines 60 to 71).\<close>

definition possible_iters :: "int \<Rightarrow> int" where
  "possible_iters len =
     (let chunk_size = largest_power_of_two_smaller_than len in
      chunk_iters len (chunk_size * 2) - 1)"

text \<open>\<^verbatim>\<open>CollapseEmptyBraces._possible_iters\<close> (lines 283 to 285).\<close>

definition collapse_possible_iters :: "int \<Rightarrow> int" where
  "collapse_possible_iters len = possible_iters len * 2"


section \<open>The data of the reduction engine\<close>

text \<open>
  A path is the list of its parts below the testcase root (what \<^verbatim>\<open>relative_to\<close> yields),
  ordered as \<^verbatim>\<open>pathlib\<close> orders paths, part by part. The testcase root is the list of its
  entries in the order of \<^verbatim>\<open>glob("**/*")\<close>, each a regular file with its content or a
  directory; the paths of a root are distinct.
\<close>

type_synonym path = "string list"

datatype 'c node = Regular 'c | Directory

type_synonym 'c tree = "(path \<times> 'c node) list"

datatype error = KeyError | AssertionError | FileNotFoundError

text \<open>
  What the engine calls outside \<^verbatim>\<open>lithium.py\<close>, taken as parameters: \<^verbatim>\<open>_contains_dd\<close> of
  the strategies package, the content hash of \<^verbatim>\<open>_calculate_testcase_hash\<close>, the element
  count of the loaded \<^verbatim>\<open>testcase_cls\<close>, the class method \<^verbatim>\<open>_possible_iters\<close> of the variant,
  and the lithium reduction iterator made by \<^verbatim>\<open>strategy_cls().reduce\<close>: its skip set, its
  sequence of candidates (\<open>None\<close> when it is exhausted), its feedback and its best testcase.
  The type \<open>'c\<close> is a file content, \<open>'r\<close> the state of the iterator, \<open>'h\<close> a fingerprint.
\<close>

record ('c, 'r, 'h) collaborators =
  contains_dd :: "'c \<Rightarrow> bool"
  fingerprint :: "'c \<Rightarrow> 'h"
  testcase_len :: "'c \<Rightarrow> int"
  cls_possible_iters :: "int \<Rightarrow> int"
  reduce :: "'c \<Rightarrow> 'r"
  update_tried :: "'h set \<Rightarrow> 'r \<Rightarrow> 'r"
  next_reduction :: "'r \<Rightarrow> ('c \<times> 'r) option"
  feedback :: "bool \<Rightarrow> 'r \<Rightarrow> 'r"
  best_testcase :: "'r \<Rightarrow> 'c"

text \<open>
  The attributes of \<^verbatim>\<open>_LithiumStrategy\<close>. \<^verbatim>\<open>_possible_iters_remain\<close> is a dict with a sum
  over its values, hence an association list. \<^verbatim>\<open>_tried\<close> is a set of frozensets of
  (path, hash) pairs: a list of snapshots, each the list of its pairs, compared as sets.
  \<^verbatim>\<open>_current_reducer\<close> is not \<^verbatim>\<open>None\<close> exactly while the generator is suspended at the
  candidate \<^verbatim>\<open>yield\<close> of line 199, so the frame of the generator carries it.
\<close>

record ('c, 'h) strategy =
  testcase_root :: "'c tree"
  all_files :: bool
  tried :: "(path \<times> 'h) list list"
  files_to_reduce :: "path list"
  possible_iters_remain :: "(path \<times> int) list"
  current_feedback :: "bool option"
  current_served :: "path list list option"
  testcase_root_dirty :: bool

text \<open>
  The generator made by \<^verbatim>\<open>__iter__\<close>: not yet started, suspended at line 199 (with the
  locals \<^verbatim>\<open>file\<close>, \<^verbatim>\<open>reduce_queue\<close>, \<^verbatim>\<open>testcase_length\<close>, \<^verbatim>\<open>reduction\<close> and the reducer),
  suspended at the final \<^verbatim>\<open>yield\<close> of line 241, or finished.
\<close>

datatype ('c, 'r) frame =
    Created
  | AtCandidate path "path list" int 'c 'r
  | AtFinal
  | Exhausted

datatype 'c outcome = Yield "'c tree" | StopIteration

section \<open>Scanning the testcase root\<close>

definition path_name :: "path \<Rightarrow> string" where
  "path_name p = (if p = [] then [] else last p)"

text \<open>The test of lines 103 and 104 on one entry of the root.\<close>

definition reducible :: "('c, 'r, 'h) collaborators \<Rightarrow> bool \<Rightarrow> path \<Rightarrow> 'c node \<Rightarrow> bool" where
  "reducible ext all p n =
     (case n of
        Directory \<Rightarrow> False
      | Regular c \<Rightarrow>
          if path_name p \<notin> {''test_info.json'', ''prefs.js''}
          then (if all \<or> contains_dd ext c then True else False)
          else False)"

text \<open>\<^verbatim>\<open>_LithiumStrategy.rescan_files_to_reduce\<close> (lines 94 to 109).\<close>

definition rescan_files_to_reduce ::
  "('c, 'r, 'h) collaborators \<Rightarrow> ('c, 'h) strategy \<Rightarrow> ('c, 'h) strategy" where
  "rescan_files_to_reduce ext s =
     (let files = map fst (filter (\<lambda>(p, n). reducible ext (all_files s) p n) (testcase_root s));
          removed = filter (\<lambda>k. k \<notin> set files) (map fst (possible_iters_remain s))
      in s\<lparr>files_to_reduce := files,
            possible_iters_remain := fold AList.delete removed (possible_iters_remain s)\<rparr>)"

text \<open>\<^verbatim>\<open>testcase_cls().load(path)\<close> reads a regular file; \<^verbatim>\<open>dump\<close> writes one.\<close>

definition load :: "'c tree \<Rightarrow> path \<Rightarrow> error + 'c" where
  "load tc_root p =
     (case map_of tc_root p of
        Some (Regular c) \<Rightarrow> Inr c
      | _ \<Rightarrow> Inl FileNotFoundError)"

definition dump :: "path \<Rightarrow> 'c \<Rightarrow> 'c tree \<Rightarrow> 'c tree" where
  "dump p c tc_root = AList.update p (Regular c) tc_root"

section \<open>Construction, feedback and the length estimate\<close>

text \<open>The loop of lines 54 to 57.\<close>

fun init_iters ::
  "('c, 'r, 'h) collaborators \<Rightarrow> 'c tree \<Rightarrow> path list \<Rightarrow> (path \<times> int) list
     \<Rightarrow> error + (path \<times> int) list" where
  "init_iters ext tc_root [] est = Inr est"
| "init_iters ext tc_root (p # ps) est =
     (case load tc_root p of
        Inl e \<Rightarrow> Inl e
      | Inr test \<Rightarrow>
          init_iters ext tc_root ps
            (AList.update p (cls_possible_iters ext (testcase_len ext test)) est))"

text \<open>
  \<^verbatim>\<open>_LithiumStrategy.__init__\<close> (lines 37 to 58). The base class constructor has put the
  testcases under the testcase root, stored the flag and made the tried cache empty.
\<close>

definition init ::
  "('c, 'r, 'h) collaborators \<Rightarrow> 'c tree \<Rightarrow> bool \<Rightarrow> error + ('c, 'h) strategy" where
  "init ext tc_root all =
     (let s = rescan_files_to_reduce ext
                \<lparr>testcase_root = tc_root, all_files = all, tried = [],
                 files_to_reduce = [], possible_iters_remain = [],
                 current_feedback = None, current_served = None,
                 testcase_root_dirty = False\<rparr>
      in case init_iters ext tc_root (files_to_reduce s) (possible_iters_remain s) of
           Inl e \<Rightarrow> Inl e
         | Inr est \<Rightarrow> Inr (s\<lparr>possible_iters_remain := est, testcase_root_dirty := False\<rparr>))"

text \<open>\<^verbatim>\<open>_LithiumStrategy.update\<close> (lines 125 to 139).\<close>

definition update ::
  "('c, 'r, 'h) collaborators \<Rightarrow> bool \<Rightarrow> path list list option
     \<Rightarrow> ('c, 'r) frame \<times> ('c, 'h) strategy \<Rightarrow> ('c, 'r) frame \<times> ('c, 'h) strategy" where
  "update ext success served e =
     (case e of (fr, s) \<Rightarrow>
        ((case fr of
            AtCandidate file reduce_queue testcase_length reduction r \<Rightarrow>
              AtCandidate file reduce_queue testcase_length reduction (feedback ext success r)
          | _ \<Rightarrow> fr),
         s\<lparr>current_feedback := Some success, current_served := served\<rparr>))"

text \<open>\<^verbatim>\<open>_LithiumStrategy.__len__\<close> (lines 141 to 149): the value the method returns.\<close>

definition len :: "('c, 'h) strategy \<Rightarrow> int" where
  "len s = sum_list (map snd (possible_iters_remain s))
           + (if testcase_root_dirty s then 1 else 0)"

section \<open>The tried cache and the purge\<close>

text \<open>
  Modelled from the spec: \<^verbatim>\<open>Strategy._calculate_testcase_hash\<close> is in the strategies
  package. It returns the whole-set fingerprint snapshot: the fingerprint of the content of
  each file under the root, keyed by the file's relative path.
\<close>

definition calculate_testcase_hash ::
  "('c, 'r, 'h) collaborators \<Rightarrow> 'c tree \<Rightarrow> (path \<times> 'h) list" where
  "calculate_testcase_hash ext tc_root =
     concat (map (\<lambda>(p, n). case n of Regular c \<Rightarrow> [(p, fingerprint ext c)] | Directory \<Rightarrow> [])
                 tc_root)"

text \<open>
  Modelled from the spec: \<^verbatim>\<open>Strategy.purge_unserved\<close> is in the strategies package. It
  removes from the root any reducible file that is not in the list of served files.
\<close>

definition purge_unserved ::
  "('c, 'r, 'h) collaborators \<Rightarrow> bool \<Rightarrow> path list list \<Rightarrow> 'c tree \<Rightarrow> 'c tree" where
  "purge_unserved ext all served tc_root =
     filter (\<lambda>(p, n). \<not> (reducible ext all p n \<and> p \<notin> set (concat served))) tc_root"

text \<open>
  The loop of lines 187 to 192 over the tried cache; \<^verbatim>\<open>tried.pop\<close> raises \<^verbatim>\<open>KeyError\<close>
  on a snapshot without the file. The second argument is \<^verbatim>\<open>current_tc_hash_map\<close>, from which
  line 186 has deleted the file.
\<close>

fun this_tc_tried ::
  "path \<Rightarrow> (path \<times> 'h) list \<Rightarrow> (path \<times> 'h) list list \<Rightarrow> 'h set \<Rightarrow> error + 'h set" where
  "this_tc_tried file current_tc_hash_map [] acc = Inr acc"
| "this_tc_tried file current_tc_hash_map (t # ts) acc =
     (case map_of t file of
        None \<Rightarrow> Inl KeyError
      | Some tc_tried \<Rightarrow>
          this_tc_tried file current_tc_hash_map ts
            (if set (AList.delete file t) = set current_tc_hash_map
             then insert tc_tried acc else acc))"

text \<open>\<^verbatim>\<open>self._tried.add\<close> of line 210: a snapshot equal to a recorded one adds nothing.\<close>

definition tried_add ::
  "(path \<times> 'h) list \<Rightarrow> (path \<times> 'h) list list \<Rightarrow> (path \<times> 'h) list list" where
  "tried_add snapshot ts =
     (if \<exists>t \<in> set ts. set t = set snapshot then ts else snapshot # ts)"

section \<open>The steps of the generator\<close>

text \<open>Lines 176 to 193: load the file, make the reducer, seed its tried cache.\<close>

definition begin_file ::
  "('c, 'r, 'h) collaborators \<Rightarrow> ('c, 'h) strategy \<Rightarrow> path \<Rightarrow> error + ('r \<times> int)" where
  "begin_file ext s file =
     (case load (testcase_root s) file of
        Inl e \<Rightarrow> Inl e
      | Inr lithium_testcase \<Rightarrow>
          let current_tc_hash_map = calculate_testcase_hash ext (testcase_root s) in
          if map_of current_tc_hash_map file = None then Inl KeyError
          else
            (case this_tc_tried file (AList.delete file current_tc_hash_map) (tried s) {} of
               Inl e \<Rightarrow> Inl e
             | Inr tr \<Rightarrow>
                 Inr (update_tried ext tr (reduce ext lithium_testcase),
                      testcase_len ext lithium_testcase)))"

text \<open>\<^verbatim>\<open>self._possible_iters_remain[file] -= d\<close>, a \<^verbatim>\<open>KeyError\<close> without the key.\<close>

definition iters_sub ::
  "path \<Rightarrow> int \<Rightarrow> (path \<times> int) list \<Rightarrow> error + (path \<times> int) list" where
  "iters_sub file d est =
     (case map_of est file of
        None \<Rightarrow> Inl KeyError
      | Some v \<Rightarrow> Inr (AList.update file (v - d) est))"

text \<open>Lines 203 to 207: the amount taken off the estimate for an accepted candidate.\<close>

definition accept_decrement :: "int \<Rightarrow> int \<Rightarrow> int" where
  "accept_decrement testcase_length reduction_len =
     (let removed = max 1 (testcase_length - reduction_len);
          chunk_size = (if removed > 1 then largest_power_of_two_smaller_than removed * 2
                        else removed)
      in chunk_iters removed chunk_size)"

text \<open>Lines 201 to 208, the branch of an accepted candidate.\<close>

definition on_success ::
  "('c, 'h) strategy \<Rightarrow> path \<Rightarrow> int \<Rightarrow> int \<Rightarrow> error + (('c, 'h) strategy \<times> int)" where
  "on_success s file testcase_length reduction_len =
     (case iters_sub file (accept_decrement testcase_length reduction_len)
             (possible_iters_remain s) of
        Inl e \<Rightarrow> Inl e
      | Inr est \<Rightarrow>
          Inr (s\<lparr>testcase_root_dirty := False, possible_iters_remain := est\<rparr>,
               reduction_len))"

text \<open>Lines 210 and 211, the branch of a rejected candidate.\<close>

definition on_failure ::
  "('c, 'r, 'h) collaborators \<Rightarrow> ('c, 'h) strategy \<Rightarrow> path \<Rightarrow> error + ('c, 'h) strategy" where
  "on_failure ext s file =
     (let s1 = s\<lparr>tried := tried_add (calculate_testcase_hash ext (testcase_root s)) (tried s)\<rparr>
      in case iters_sub file 1 (possible_iters_remain s1) of
           Inl e \<Rightarrow> Inl e
         | Inr est \<Rightarrow> Inr (s1\<lparr>possible_iters_remain := est\<rparr>))"

text \<open>
  Lines 213 to 229, for an accepted candidate with a list of served files. The result is
  the new state, the new \<^verbatim>\<open>reduce_queue\<close> and whether line 229 breaks out of the loop.
\<close>

definition on_served ::
  "('c, 'r, 'h) collaborators \<Rightarrow> ('c, 'h) strategy \<Rightarrow> path \<Rightarrow> path list \<Rightarrow> path list list
     \<Rightarrow> ('c, 'h) strategy \<times> path list \<times> bool" where
  "on_served ext s file reduce_queue served =
     (let s1 = s\<lparr>testcase_root := purge_unserved ext (all_files s) served (testcase_root s)\<rparr>;
          num_files_before = length (files_to_reduce s1);
          s2 = rescan_files_to_reduce ext s1;
          reduce_queue' =
            sort (remdups (filter (\<lambda>p. p \<in> set (files_to_reduce s2)) reduce_queue));
          s3 = s2\<lparr>testcase_root_dirty := (length (files_to_reduce s2) \<noteq> num_files_before)\<rparr>
      in (s3, reduce_queue', file \<notin> set (files_to_reduce s2)))"

text \<open>Lines 200 to 229: what the generator does with the verdict when it is resumed.\<close>

definition after_yield ::
  "('c, 'r, 'h) collaborators \<Rightarrow> ('c, 'h) strategy \<Rightarrow> path \<Rightarrow> path list \<Rightarrow> int \<Rightarrow> 'c
     \<Rightarrow> error + (('c, 'h) strategy \<times> path list \<times> int \<times> bool)" where
  "after_yield ext s file reduce_queue testcase_length reduction =
     (case (if current_feedback s = Some True
            then on_success s file testcase_length (testcase_len ext reduction)
            else (case on_failure ext s file of
                    Inl e \<Rightarrow> Inl e
                  | Inr s' \<Rightarrow> Inr (s', testcase_length))) of
        Inl e \<Rightarrow> Inl e
      | Inr (s1, testcase_length') \<Rightarrow>
          (case (if current_feedback s1 = Some True then current_served s1 else None) of
             Some served \<Rightarrow>
               (case on_served ext s1 file reduce_queue served of
                  (s2, reduce_queue', brk) \<Rightarrow> Inr (s2, reduce_queue', testcase_length', brk))
           | None \<Rightarrow> Inr (s1, reduce_queue, testcase_length', False)))"

text \<open>Lines 233 and 234, after the loop over the reductions of a file.\<close>

definition leave_file :: "('c, 'h) strategy \<Rightarrow> path \<Rightarrow> ('c, 'h) strategy" where
  "leave_file s file = s\<lparr>possible_iters_remain := AList.delete file (possible_iters_remain s)\<rparr>"

text \<open>
  The head of the \<^verbatim>\<open>for\<close> loop of line 195: the next reduction is dumped and will be
  yielded (\<open>Inl\<close>), or the reducer is exhausted, the \<^verbatim>\<open>else\<close> branch dumps its best
  testcase and the file is left (\<open>Inr\<close>).
\<close>

definition for_reduction ::
  "('c, 'r, 'h) collaborators \<Rightarrow> ('c, 'h) strategy \<Rightarrow> path \<Rightarrow> 'r
     \<Rightarrow> ('c \<times> 'r \<times> ('c, 'h) strategy) + ('c, 'h) strategy" where
  "for_reduction ext s file r =
     (case next_reduction ext r of
        Some (reduction, r') \<Rightarrow>
          Inl (reduction, r', s\<lparr>testcase_root := dump file reduction (testcase_root s)\<rparr>)
      | None \<Rightarrow>
          Inr (leave_file
                 (s\<lparr>testcase_root := dump file (best_testcase ext r) (testcase_root s)\<rparr>) file))"

text \<open>Lines 235 to 243, reached when the reduce queue is empty.\<close>

definition finish ::
  "('c, 'h) strategy \<Rightarrow> 'c outcome \<times> ('c, 'r) frame \<times> ('c, 'h) strategy" where
  "finish s =
     (if testcase_root_dirty s then (Yield (testcase_root s), AtFinal, s)
      else (StopIteration, Exhausted, s\<lparr>testcase_root_dirty := False\<rparr>))"

text \<open>The \<^verbatim>\<open>while reduce_queue\<close> loop of line 169, run up to the next \<^verbatim>\<open>yield\<close>.\<close>

fun run_queue ::
  "('c, 'r, 'h) collaborators \<Rightarrow> ('c, 'h) strategy \<Rightarrow> path list
     \<Rightarrow> error + ('c outcome \<times> ('c, 'r) frame \<times> ('c, 'h) strategy)" where
  "run_queue ext s [] = Inr (finish s)"
| "run_queue ext s (file # reduce_queue) =
     (case begin_file ext s file of
        Inl e \<Rightarrow> Inl e
      | Inr (r, testcase_length) \<Rightarrow>
          (case for_reduction ext s file r of
             Inl (reduction, r', s') \<Rightarrow>
               Inr (Yield (testcase_root s'),
                    AtCandidate file reduce_queue testcase_length reduction r', s')
           | Inr s' \<Rightarrow> run_queue ext s' reduce_queue))"

text \<open>
  One \<^verbatim>\<open>next()\<close> on the generator of \<^verbatim>\<open>_LithiumStrategy.__iter__\<close> (lines 151 to 243): from
  where it is suspended to the next \<^verbatim>\<open>yield\<close>, to its end, or to an exception.
\<close>

definition resume ::
  "('c, 'r, 'h) collaborators \<Rightarrow> ('c, 'r) frame \<times> ('c, 'h) strategy
     \<Rightarrow> error + ('c outcome \<times> ('c, 'r) frame \<times> ('c, 'h) strategy)" where
  "resume ext e =
     (case e of (fr, s) \<Rightarrow>
       (case fr of
          Created \<Rightarrow>
            run_queue ext (s\<lparr>testcase_root_dirty := False\<rparr>) (sort (files_to_reduce s))
        | AtCandidate file reduce_queue testcase_length reduction r \<Rightarrow>
            (case after_yield ext s file reduce_queue testcase_length reduction of
               Inl err \<Rightarrow> Inl err
             | Inr (s1, reduce_queue', testcase_length', brk) \<Rightarrow>
                 if brk then run_queue ext (leave_file s1 file) reduce_queue'
                 else
                   (case for_reduction ext s1 file r of
                      Inl (reduction', r', s2) \<Rightarrow>
                        Inr (Yield (testcase_root s2),
                             AtCandidate file reduce_queue' testcase_length' reduction' r', s2)
                    | Inr s2 \<Rightarrow> run_queue ext s2 reduce_queue'))
        | AtFinal \<Rightarrow>
            if current_feedback s = Some True
            then Inr (StopIteration, Exhausted, s\<lparr>testcase_root_dirty := False\<rparr>)
            else Inl AssertionError
        | Exhausted \<Rightarrow> Inr (StopIteration, Exhausted, s)))"

text \<open>
  The estimates that \<^verbatim>\<open>__len__\<close> sums are those of files still to be reduced: of the
  files to reduce before the generator starts, of the file under reduction and the reduce
  queue while it is suspended at a candidate, and none at the final yield and at the end.
\<close>

definition estimates_within :: "('c, 'r) frame \<Rightarrow> ('c, 'h) strategy \<Rightarrow> bool" where
  "estimates_within fr s =
     (case fr of
        Created \<Rightarrow> fst ` set (possible_iters_remain s) \<subseteq> set (files_to_reduce s)
      | AtCandidate file reduce_queue testcase_length reduction r \<Rightarrow>
          fst ` set (possible_iters_remain s) \<subseteq> insert file (set reduce_queue)
      | AtFinal \<Rightarrow> possible_iters_remain s = []
      | Exhausted \<Rightarrow> possible_iters_remain s = [] \<and> \<not> testcase_root_dirty s)"

section \<open>The Check variant\<close>

text \<open>
  \<^verbatim>\<open>Check\<close> (lines 246 to 268) keeps the attributes of \<^verbatim>\<open>_LithiumStrategy\<close> and adds
  \<^verbatim>\<open>_remain\<close>. Its \<^verbatim>\<open>__iter__\<close> is a generator too: \<^verbatim>\<open>self._remain = 0\<close> runs on the first
  \<^verbatim>\<open>next()\<close>, and \<^verbatim>\<open>yield from\<close> then hands every \<^verbatim>\<open>next()\<close> to the generator of the base
  class.
\<close>

record ('c, 'h) check =
  base :: "('c, 'h) strategy"
  remain :: int

definition check_init ::
  "('c, 'r, 'h) collaborators \<Rightarrow> 'c tree \<Rightarrow> bool \<Rightarrow> error + ('c, 'h) check" where
  "check_init ext tc_root all =
     (case init ext tc_root all of
        Inl e \<Rightarrow> Inl e
      | Inr s \<Rightarrow> Inr \<lparr>base = s\<lparr>files_to_reduce := take 1 (files_to_reduce s)\<rparr>, remain = 1\<rparr>)"

definition check_len :: "('c, 'h) check \<Rightarrow> int" where
  "check_len c = remain c"

definition check_update ::
  "('c, 'r, 'h) collaborators \<Rightarrow> bool \<Rightarrow> path list list option
     \<Rightarrow> ('c, 'r) frame \<times> ('c, 'h) check \<Rightarrow> ('c, 'r) frame \<times> ('c, 'h) check" where
  "check_update ext success served e =
     (case e of (fr, c) \<Rightarrow>
        (case update ext success served (fr, base c) of
           (fr', s') \<Rightarrow> (fr', c\<lparr>base := s'\<rparr>)))"

definition check_resume ::
  "('c, 'r, 'h) collaborators \<Rightarrow> ('c, 'r) frame \<times> ('c, 'h) check
     \<Rightarrow> error + ('c outcome \<times> ('c, 'r) frame \<times> ('c, 'h) check)" where
  "check_resume ext e =
     (case e of (fr, c) \<Rightarrow>
        let c1 = (if fr = Created then c\<lparr>remain := 0\<rparr> else c) in
        case resume ext (fr, base c1) of
          Inl err \<Rightarrow> Inl err
        | Inr (out, fr', s') \<Rightarrow> Inr (out, fr', c1\<lparr>base := s'\<rparr>))"

section \<open>Running the engine\<close>

text \<open>
  The caller's loop, \<^verbatim>\<open>for candidate in engine: ... engine.update(success, served)\<close>, with
  the verdicts given in advance: the generator is resumed, an observation of the strategy
  is recorded, and after a \<^verbatim>\<open>yield\<close> the next verdict is passed to \<^verbatim>\<open>update\<close>.
\<close>

fun drive ::
  "('c, 'r, 'h) collaborators \<Rightarrow> (('c, 'h) strategy \<Rightarrow> 'o)
     \<Rightarrow> (bool \<times> path list list option) list \<Rightarrow> ('c, 'r) frame \<times> ('c, 'h) strategy
     \<Rightarrow> (error + 'o) list" where
  "drive ext obs [] e =
     (case resume ext e of
        Inl err \<Rightarrow> [Inl err]
      | Inr (out, fr, s) \<Rightarrow> [Inr (obs s)])"
| "drive ext obs (v # vs) e =
     (case resume ext e of
        Inl err \<Rightarrow> [Inl err]
      | Inr (out, fr, s) \<Rightarrow>
          Inr (obs s) #
          (case out of
             StopIteration \<Rightarrow> []
           | Yield t \<Rightarrow> drive ext obs vs (update ext (fst v) (snd v) (fr, s))))"

definition session ::
  "('c, 'r, 'h) collaborators \<Rightarrow> (('c, 'h) strategy \<Rightarrow> 'o) \<Rightarrow> 'c tree \<Rightarrow> bool
     \<Rightarrow> (bool \<times> path list list option) list \<Rightarrow> (error + 'o) list" where
  "session ext obs tc_root all vs =
     (case init ext tc_root all of
        Inl err \<Rightarrow> [Inl err]
      | Inr s \<Rightarrow> Inr (obs s) # drive ext obs vs (Created, s))"

text \<open>
  Collaborators to run the engine with. A file content is its list of lines and its own
  fingerprint, the markers are the lines \<^verbatim>\<open>DDBEGIN\<close> and \<^verbatim>\<open>DDEND\<close>, and the length is the
  number of lines. The reduction iterator proposes, in order, the candidates a plan lists
  for the loaded content, without those it was told were tried; it holds its best
  testcase, the candidate awaiting feedback and the candidates to come.
\<close>

type_synonym lines = "string list"

type_synonym planned = "lines \<times> lines option \<times> lines list"

definition planned_collaborators ::
  "(lines \<Rightarrow> lines list) \<Rightarrow> (lines, planned, lines) collaborators" where
  "planned_collaborators plan =
     \<lparr>contains_dd = (\<lambda>c. ''DDBEGIN'' \<in> set c \<and> ''DDEND'' \<in> set c),
      fingerprint = (\<lambda>c. c),
      testcase_len = (\<lambda>c. int (length c)),
      cls_possible_iters = possible_iters,
      reduce = (\<lambda>c. (c, None, plan c)),
      update_tried = (\<lambda>tr (b, p, q). (b, p, filter (\<lambda>c. c \<notin> tr) q)),
      next_reduction = (\<lambda>(b, p, q). case q of [] \<Rightarrow> None | c # q' \<Rightarrow> Some (c, (b, Some c, q'))),
      feedback = (\<lambda>ok (b, p, q).
                    if ok then (case p of Some c \<Rightarrow> (c, None, q) | None \<Rightarrow> (b, None, q))
                    else (b, None, q)),
      best_testcase = (\<lambda>(b, p, q). b)\<rparr>"

text \<open>Two plans: every proper prefix, shortest first; and the content itself, once.\<close>

definition prefixes_plan :: "lines \<Rightarrow> lines list" where
  "prefixes_plan c = map (\<lambda>k. take k c) [0..<length c]"

definition check_only_plan :: "lines \<Rightarrow> lines list" where
  "check_only_plan c = [c]"

text \<open>Scenario A: the file with the markers, a file without them and a metadata file.\<close>

definition scenario_a :: "(lines, lines) strategy" where
  "scenario_a =
     \<lparr>testcase_root = [([''a.html''], Regular [''DDBEGIN'', ''x'', ''DDEND'']),
                       ([''b.html''], Regular [''y'']),
                       ([''prefs.js''], Regular [''DDBEGIN'', ''DDEND''])],
      all_files = False, tried = [], files_to_reduce = [],
      possible_iters_remain = [([''a.html''], 8), ([''b.html''], 2)],
      current_feedback = None, current_served = None, testcase_root_dirty = False\<rparr>"

text \<open>
  Two files of two lines and one line under reduction with every prefix as a candidate,
  suspended at the first candidate of \<^verbatim>\<open>a.html\<close> (the empty file), with a verdict.
\<close>

definition two_files :: "bool option \<Rightarrow> path list list option \<Rightarrow> (lines, lines) strategy" where
  "two_files verdict served =
     \<lparr>testcase_root = [([''a.html''], Regular []), ([''b.html''], Regular [''z''])],
      all_files = True, tried = [],
      files_to_reduce = [[''a.html''], [''b.html'']],
      possible_iters_remain = [([''a.html''], 4), ([''b.html''], 2)],
      current_feedback = verdict, current_served = served, testcase_root_dirty = False\<rparr>"

text \<open>That state after the candidate was accepted with only \<^verbatim>\<open>b.html\<close> served.\<close>

definition after_purge :: "(lines, lines) strategy" where
  "after_purge =
     \<lparr>testcase_root = [([''b.html''], Regular [''z''])],
      all_files = True, tried = [], files_to_reduce = [[''b.html'']],
      possible_iters_remain = [([''b.html''], 2)],
      current_feedback = Some True, current_served = Some [[[''b.html'']]],
      testcase_root_dirty = True\<rparr>"

text \<open>A state whose tried cache holds a snapshot taken with \<^verbatim>\<open>b.html\<close> reduced to one line.\<close>

definition later_pass :: "(lines, lines) strategy" where
  "later_pass =
     \<lparr>testcase_root = [([''a.html''], Regular [''x'', ''y'']),
                       ([''b.html''], Regular [''z'', ''w''])],
      all_files = True,
      tried = [[([''a.html''], [''x'', ''y'']), ([''b.html''], [''z''])]],
      files_to_reduce = [[''a.html''], [''b.html'']],
      possible_iters_remain = [([''b.html''], 4)],
      current_feedback = Some False, current_served = None, testcase_root_dirty = False\<rparr>"

text \<open>The last file of the queue, suspended at its only candidate.\<close>

definition last_file :: "(lines, lines) strategy" where
  "last_file =
     \<lparr>testcase_root = [([''b.html''], Regular [])],
      all_files = True, tried = [], files_to_reduce = [[''b.html'']],
      possible_iters_remain = [([''b.html''], 2)],
      current_feedback = Some False, current_served = None, testcase_root_dirty = False\<rparr>"

text \<open>Scenario B: a file of eight lines (and a second file).\<close>

definition check_root :: "lines tree" where
  "check_root =
     [([''a.html''], Regular [''one'', ''two'', ''three'', ''four'',
                                  ''five'', ''six'', ''seven'', ''eight'']),
      ([''b.html''], Regular [''z''])]"

section \<open>Properties of the progress estimate\<close>





















section \<open>Properties of the scan\<close>

lemma fold_delete_filter:
  "fold AList.delete ks est = filter (\<lambda>(k, v). k \<notin> set ks) est"
proof (induction ks arbitrary: est)
  case Nil
  show ?case by simp
next
  case (Cons k ks)
  have "fold AList.delete (k # ks) est = fold AList.delete ks (AList.delete k est)"
    by simp
  also have "\<dots> = filter (\<lambda>(k, v). k \<notin> set ks) (AList.delete k est)"
    by (rule Cons.IH)
  also have "\<dots> = filter (\<lambda>(k', v). k' \<notin> set (k # ks)) est"
    by (auto simp add: AList.delete_eq case_prod_unfold intro: filter_cong)
  finally show ?case .
qed

lemma rescan_files:
  "files_to_reduce (rescan_files_to_reduce ext s)
   = map fst (filter (\<lambda>(p, n). reducible ext (all_files s) p n) (testcase_root s))"
  by (simp add: rescan_files_to_reduce_def Let_def)

lemma rescan_iters:
  "possible_iters_remain (rescan_files_to_reduce ext s)
   = filter (\<lambda>(k, v). k \<in> set (files_to_reduce (rescan_files_to_reduce ext s)))
       (possible_iters_remain s)"
proof -
  have "\<And>kv. kv \<in> set (possible_iters_remain s) \<Longrightarrow> fst kv \<in> set (map fst (possible_iters_remain s))"
    by simp
  then show ?thesis
    unfolding rescan_files_to_reduce_def Let_def fold_delete_filter
    by (auto intro!: filter_cong simp add: case_prod_unfold)
qed

lemma rescan_others:
  "testcase_root (rescan_files_to_reduce ext s) = testcase_root s"
  "all_files (rescan_files_to_reduce ext s) = all_files s"
  "tried (rescan_files_to_reduce ext s) = tried s"
  "current_feedback (rescan_files_to_reduce ext s) = current_feedback s"
  "current_served (rescan_files_to_reduce ext s) = current_served s"
  "testcase_root_dirty (rescan_files_to_reduce ext s) = testcase_root_dirty s"
  by (simp_all add: rescan_files_to_reduce_def Let_def)

lemma reducible_iff:
  "reducible ext all p n \<longleftrightarrow>
     (\<exists>c. n = Regular c \<and> path_name p \<notin> {''test_info.json'', ''prefs.js''}
          \<and> (all \<or> contains_dd ext c))"
  by (cases n) (simp_all add: reducible_def)

lemma map_of_filter_keys:
  "map_of (filter (\<lambda>(k, v). k \<in> A) est) p = (if p \<in> A then map_of est p else None)"
  by (induction est) auto

text \<open>
  C7. The scan includes a file under the root if and only if it is a regular file, its
  name is not a reserved metadata name, and the include-all-files flag is set or its
  content has the markers; after the scan every tracked file absent from the result has
  lost its estimate, the others keep theirs; with the flag unset only files with the
  markers are in the result.
\<close>

theorem rescan_files_to_reduce_eligible:
  "(p \<in> set (files_to_reduce (rescan_files_to_reduce ext s)) \<longleftrightarrow>
      (\<exists>c. (p, Regular c) \<in> set (testcase_root s)
           \<and> path_name p \<notin> {''test_info.json'', ''prefs.js''}
           \<and> (all_files s \<or> contains_dd ext c)))
   \<and> map_of (possible_iters_remain (rescan_files_to_reduce ext s)) q
       = (if q \<in> set (files_to_reduce (rescan_files_to_reduce ext s))
          then map_of (possible_iters_remain s) q else None)
   \<and> (\<not> all_files s \<longrightarrow>
        (\<forall>f \<in> set (files_to_reduce (rescan_files_to_reduce ext s)).
           \<exists>c. (f, Regular c) \<in> set (testcase_root s) \<and> contains_dd ext c))
   \<and> testcase_root (rescan_files_to_reduce ext s) = testcase_root s"
proof (intro conjI)
  show "p \<in> set (files_to_reduce (rescan_files_to_reduce ext s)) \<longleftrightarrow>
      (\<exists>c. (p, Regular c) \<in> set (testcase_root s)
           \<and> path_name p \<notin> {''test_info.json'', ''prefs.js''}
           \<and> (all_files s \<or> contains_dd ext c))"
    unfolding rescan_files by (force simp add: reducible_iff)
  show "map_of (possible_iters_remain (rescan_files_to_reduce ext s)) q
       = (if q \<in> set (files_to_reduce (rescan_files_to_reduce ext s))
          then map_of (possible_iters_remain s) q else None)"
    by (subst rescan_iters) (rule map_of_filter_keys)
  show "\<not> all_files s \<longrightarrow>
        (\<forall>f \<in> set (files_to_reduce (rescan_files_to_reduce ext s)).
           \<exists>c. (f, Regular c) \<in> set (testcase_root s) \<and> contains_dd ext c)"
    unfolding rescan_files by (force simp add: reducible_iff)
  show "testcase_root (rescan_files_to_reduce ext s) = testcase_root s"
    by (rule rescan_others)
qed

text \<open>
  Scenario A: only the file with the markers is scanned, and the estimate of the other
  file is dropped.
\<close>

theorem rescan_files_to_reduce_eligible_witness:
  "files_to_reduce (rescan_files_to_reduce (planned_collaborators prefixes_plan) scenario_a)
     = [[''a.html'']]
   \<and> [''a.html''] \<in> set (files_to_reduce
        (rescan_files_to_reduce (planned_collaborators prefixes_plan) scenario_a))
   \<and> map_of (possible_iters_remain
        (rescan_files_to_reduce (planned_collaborators prefixes_plan) scenario_a)) [''b.html'']
      = None
   \<and> map_of (possible_iters_remain
        (rescan_files_to_reduce (planned_collaborators prefixes_plan) scenario_a)) [''a.html'']
      = Some 8
   \<and> \<not> all_files scenario_a
   \<and> (\<exists>c. ([''a.html''], Regular c) \<in> set (testcase_root scenario_a)
          \<and> contains_dd (planned_collaborators prefixes_plan) c)
   \<and> testcase_root (rescan_files_to_reduce (planned_collaborators prefixes_plan) scenario_a)
       = testcase_root scenario_a"
proof -
  let ?E = "planned_collaborators prefixes_plan"
  have f: "files_to_reduce (rescan_files_to_reduce ?E scenario_a) = [[''a.html'']]"
    by code_simp
  have na: "\<not> all_files scenario_a"
    by (simp add: scenario_a_def)
  note a = rescan_files_to_reduce_eligible
             [where p = "[''a.html'']" and ext = ?E and s = scenario_a and q = "[''a.html'']"]
  note b = rescan_files_to_reduce_eligible
             [where p = "[''a.html'']" and ext = ?E and s = scenario_a and q = "[''b.html'']"]
  have m: "[''a.html''] \<in> set (files_to_reduce (rescan_files_to_reduce ?E scenario_a))"
    by (simp add: f)
  have e0: "map_of (possible_iters_remain scenario_a) [''a.html''] = Some 8"
    by (simp add: scenario_a_def)
  from a[THEN conjunct2, THEN conjunct1]
  have ea: "map_of (possible_iters_remain (rescan_files_to_reduce ?E scenario_a)) [''a.html'']
            = Some 8"
    by (simp add: f e0)
  from b[THEN conjunct2, THEN conjunct1]
  have eb: "map_of (possible_iters_remain (rescan_files_to_reduce ?E scenario_a)) [''b.html'']
            = None"
    by (simp add: f)
  from a[THEN conjunct2, THEN conjunct2, THEN conjunct1, rule_format, OF na m]
  have dd: "\<exists>c. ([''a.html''], Regular c) \<in> set (testcase_root scenario_a)
              \<and> contains_dd ?E c" .
  have rt: "testcase_root (rescan_files_to_reduce ?E scenario_a) = testcase_root scenario_a"
    by (rule a[THEN conjunct2, THEN conjunct2, THEN conjunct2])
  show ?thesis
    by (intro conjI f m eb ea na dd rt)
qed

section \<open>Properties of the steps of the generator\<close>

lemma iters_sub_Some:
  "map_of est file = Some v \<Longrightarrow> iters_sub file d est = Inr (AList.update file (v - d) est)"
  by (simp add: iters_sub_def)

lemma on_success_Some:
  assumes "map_of (possible_iters_remain s) file = Some v"
  shows "on_success s file tlen rlen
         = Inr (s\<lparr>testcase_root_dirty := False,
                  possible_iters_remain :=
                    AList.update file (v - accept_decrement tlen rlen) (possible_iters_remain s)\<rparr>,
                rlen)"
  by (simp add: on_success_def iters_sub_Some[OF assms])

lemma on_failure_Some:
  assumes "map_of (possible_iters_remain s) file = Some v"
  shows "on_failure ext s file
         = Inr (s\<lparr>tried := tried_add (calculate_testcase_hash ext (testcase_root s)) (tried s),
                  possible_iters_remain := AList.update file (v - 1) (possible_iters_remain s)\<rparr>)"
  by (simp add: on_failure_def Let_def iters_sub_Some[OF assms])


lemma on_served_eq:
  "on_served ext s file reduce_queue served =
     (let s2 = rescan_files_to_reduce ext
                 (s\<lparr>testcase_root := purge_unserved ext (all_files s) served (testcase_root s)\<rparr>)
      in (s2\<lparr>testcase_root_dirty := (length (files_to_reduce s2) \<noteq> length (files_to_reduce s))\<rparr>,
          sort (remdups (filter (\<lambda>p. p \<in> set (files_to_reduce s2)) reduce_queue)),
          file \<notin> set (files_to_reduce s2)))"
  by (simp add: on_served_def Let_def)


lemma run_queue_stop:
  "run_queue ext s q = Inr (StopIteration, fr', s') \<Longrightarrow>
     fr' = Exhausted \<and> \<not> testcase_root_dirty s'"
proof (induction ext s q rule: run_queue.induct)
  case (1 ext s)
  then show ?case
    by (auto simp add: finish_def split: if_splits)
next
  case (2 ext s f rq)
  from "2.prems" obtain r n where b: "begin_file ext s f = Inr (r, n)"
    by (auto split: sum.splits)
  show ?case
  proof (cases "for_reduction ext s f r")
    case (Inl a)
    with "2.prems" b show ?thesis
      by (auto split: prod.splits)
  next
    case (Inr s1)
    with "2.prems" b have "run_queue ext s1 rq = Inr (StopIteration, fr', s')"
      by simp
    with "2.IH"[OF b refl Inr] show ?thesis
      by simp
  qed
qed

lemma resume_stop:
  assumes "resume ext (fr, s) = Inr (StopIteration, fr', s')" and "fr \<noteq> Exhausted"
  shows "fr' = Exhausted \<and> \<not> testcase_root_dirty s'"
proof (cases fr)
  case Created
  with assms(1) show ?thesis
    by (auto simp add: resume_def dest: run_queue_stop)
next
  case (AtCandidate f q tlen red r)
  with assms(1) show ?thesis
    by (auto simp add: resume_def dest: run_queue_stop
             split: sum.splits prod.splits if_splits)
next
  case AtFinal
  with assms(1) show ?thesis
    by (auto simp add: resume_def split: if_splits)
next
  case Exhausted
  with assms(2) show ?thesis by simp
qed

text \<open>
  C4. If the dirty flag is still set when the reduce queue is empty, the generator yields
  the root once more; resumed after that yield it never yields again: with a rejection it
  raises the assertion error, with an acceptance it ends. Whenever the generator ends, the
  dirty flag is cleared.
\<close>

theorem final_yield_then_assert:
  "(testcase_root_dirty s \<longrightarrow>
      run_queue ext s [] = Inr (Yield (testcase_root s), AtFinal, s))
   \<and> (\<not> testcase_root_dirty s \<longrightarrow> run_queue ext s [] = Inr (StopIteration, Exhausted, s))
   \<and> resume ext (update ext False served (AtFinal, s)) = Inl AssertionError
   \<and> resume ext (update ext True served (AtFinal, s))
       = Inr (StopIteration, Exhausted,
              s\<lparr>current_feedback := Some True, current_served := served,
                testcase_root_dirty := False\<rparr>)
   \<and> (current_feedback s \<noteq> Some True \<longrightarrow> resume ext (AtFinal, s) = Inl AssertionError)
   \<and> (fr \<noteq> Exhausted \<and> resume ext (fr, s) = Inr (StopIteration, fr', s') \<longrightarrow>
        fr' = Exhausted \<and> \<not> testcase_root_dirty s')"
proof (intro conjI)
  show "testcase_root_dirty s \<longrightarrow>
      run_queue ext s [] = Inr (Yield (testcase_root s), AtFinal, s)"
    by (simp add: finish_def)
  show "\<not> testcase_root_dirty s \<longrightarrow> run_queue ext s [] = Inr (StopIteration, Exhausted, s)"
    by (simp add: finish_def)
  show "resume ext (update ext False served (AtFinal, s)) = Inl AssertionError"
    by (simp add: resume_def update_def)
  show "resume ext (update ext True served (AtFinal, s))
       = Inr (StopIteration, Exhausted,
              s\<lparr>current_feedback := Some True, current_served := served,
                testcase_root_dirty := False\<rparr>)"
    by (simp add: resume_def update_def)
  show "current_feedback s \<noteq> Some True \<longrightarrow> resume ext (AtFinal, s) = Inl AssertionError"
    by (simp add: resume_def)
  show "fr \<noteq> Exhausted \<and> resume ext (fr, s) = Inr (StopIteration, fr', s') \<longrightarrow>
        fr' = Exhausted \<and> \<not> testcase_root_dirty s'"
    using resume_stop by blast
qed

section \<open>Properties of the tried cache\<close>

lemma this_tc_tried_result:
  "(\<forall>t \<in> set ts. map_of t file \<noteq> None) \<Longrightarrow>
   this_tc_tried file cur ts acc
   = Inr (acc \<union> {h. \<exists>t \<in> set ts. map_of t file = Some h \<and> set (AList.delete file t) = set cur})"
proof (induction ts arbitrary: acc)
  case Nil
  show ?case by simp
next
  case (Cons t ts)
  from Cons.prems obtain h where h: "map_of t file = Some h" by auto
  from Cons.prems have rest: "\<forall>t \<in> set ts. map_of t file \<noteq> None" by simp
  show ?case
    by (auto simp add: h Cons.IH[OF rest])
qed

lemma hash_member:
  "(p, h) \<in> set (calculate_testcase_hash ext tc_root) \<longleftrightarrow>
     (\<exists>c. (p, Regular c) \<in> set tc_root \<and> h = fingerprint ext c)"
  by (induction tc_root) (auto simp add: calculate_testcase_hash_def split: node.splits)

lemma load_Inr:
  "load tc_root p = Inr c \<Longrightarrow> (p, Regular c) \<in> set tc_root"
  by (auto simp add: load_def split: option.splits node.splits dest: map_of_SomeD)

lemma hash_of_loaded:
  assumes "load tc_root p = Inr c"
  shows "map_of (calculate_testcase_hash ext tc_root) p \<noteq> None"
proof -
  from load_Inr[OF assms] have "(p, fingerprint ext c) \<in> set (calculate_testcase_hash ext tc_root)"
    by (auto simp add: hash_member)
  then have "p \<in> fst ` set (calculate_testcase_hash ext tc_root)"
    by force
  then show ?thesis
    by (simp add: map_of_eq_None_iff)
qed

lemma begin_file_result:
  assumes "load (testcase_root s) file = Inr c"
    and "\<forall>t \<in> set (tried s). map_of t file \<noteq> None"
  shows "begin_file ext s file
         = Inr (update_tried ext
                  {h. \<exists>t \<in> set (tried s). map_of t file = Some h
                        \<and> set (AList.delete file t)
                          = set (AList.delete file
                                  (calculate_testcase_hash ext (testcase_root s)))}
                  (reduce ext c),
                testcase_len ext c)"
  using hash_of_loaded[OF assms(1), of ext]
  by (simp add: begin_file_def Let_def assms(1) this_tc_tried_result[OF assms(2)])

lemma hash_dump_other_files:
  "AList.delete file (calculate_testcase_hash ext (dump file c tc_root))
   = AList.delete file (calculate_testcase_hash ext tc_root)"
  by (induction tc_root)
     (auto simp add: calculate_testcase_hash_def dump_def AList.delete_eq split: node.splits)

lemma hash_differs:
  assumes d: "distinct (map fst tc_root2)"
    and g: "g \<noteq> file"
    and c1: "(g, Regular c1) \<in> set tc_root1"
    and c2: "(g, Regular c2) \<in> set tc_root2"
    and ne: "fingerprint ext c1 \<noteq> fingerprint ext c2"
  shows "set (AList.delete file (calculate_testcase_hash ext tc_root1))
         \<noteq> set (AList.delete file (calculate_testcase_hash ext tc_root2))"
proof -
  have in1: "(g, fingerprint ext c1) \<in> set (AList.delete file (calculate_testcase_hash ext tc_root1))"
    using c1 g by (auto simp add: AList.delete_eq hash_member)
  have "(g, fingerprint ext c1) \<notin> set (calculate_testcase_hash ext tc_root2)"
  proof
    assume "(g, fingerprint ext c1) \<in> set (calculate_testcase_hash ext tc_root2)"
    then obtain c where c: "(g, Regular c) \<in> set tc_root2" "fingerprint ext c1 = fingerprint ext c"
      by (auto simp add: hash_member)
    from d c(1) c2 have "Regular c = Regular c2"
      by (meson eq_key_imp_eq_value)
    with c(2) ne show False by simp
  qed
  then have "(g, fingerprint ext c1) \<notin> set (AList.delete file (calculate_testcase_hash ext tc_root2))"
    by (auto simp add: AList.delete_eq)
  with in1 show ?thesis by metis
qed

lemma tried_add_recorded:
  "\<exists>t \<in> set (tried_add snapshot ts). set t = set snapshot"
  by (auto simp add: tried_add_def)

lemma tried_add_keeps:
  "set ts \<subseteq> set (tried_add snapshot ts)"
  by (auto simp add: tried_add_def)

lemma after_yield_rejected:
  assumes est: "map_of (possible_iters_remain s) file = Some v"
    and fb: "current_feedback s \<noteq> Some True"
  shows "after_yield ext s file q tlen red
         = Inr (s\<lparr>tried := tried_add (calculate_testcase_hash ext (testcase_root s)) (tried s),
                  possible_iters_remain := AList.update file (v - 1) (possible_iters_remain s)\<rparr>,
                q, tlen, False)"
  using fb by (simp add: after_yield_def on_failure_Some[OF est])

lemma rejected_step:
  assumes est: "map_of (possible_iters_remain s) file = Some v"
    and fb: "current_feedback s \<noteq> Some True"
  shows "\<exists>s'. after_yield ext s file q tlen red = Inr (s', q, tlen, False)
           \<and> (\<exists>t \<in> set (tried s'). set t = set (calculate_testcase_hash ext (testcase_root s)))
           \<and> set (tried s) \<subseteq> set (tried s')
           \<and> map_of (possible_iters_remain s') file = Some (v - 1)
           \<and> (\<forall>p. p \<noteq> file \<longrightarrow>
                 map_of (possible_iters_remain s') p = map_of (possible_iters_remain s) p)
           \<and> testcase_root_dirty s' = testcase_root_dirty s"
proof -
  define s' where
    "s' = s\<lparr>tried := tried_add (calculate_testcase_hash ext (testcase_root s)) (tried s),
            possible_iters_remain := AList.update file (v - 1) (possible_iters_remain s)\<rparr>"
  have a: "after_yield ext s file q tlen red = Inr (s', q, tlen, False)"
    unfolding s'_def by (rule after_yield_rejected[OF est fb])
  have t: "tried s' = tried_add (calculate_testcase_hash ext (testcase_root s)) (tried s)"
    by (simp add: s'_def)
  have b: "\<exists>t \<in> set (tried s'). set t = set (calculate_testcase_hash ext (testcase_root s))"
    unfolding t by (rule tried_add_recorded)
  have c: "set (tried s) \<subseteq> set (tried s')"
    unfolding t by (rule tried_add_keeps)
  have e: "possible_iters_remain s' = AList.update file (v - 1) (possible_iters_remain s)"
    by (simp add: s'_def)
  have d: "map_of (possible_iters_remain s') file = Some (v - 1)"
    unfolding e by (simp add: AList.update_conv')
  have f: "\<forall>p. p \<noteq> file \<longrightarrow>
                 map_of (possible_iters_remain s') p = map_of (possible_iters_remain s) p"
    unfolding e by (simp add: AList.update_conv')
  have g: "testcase_root_dirty s' = testcase_root_dirty s"
    by (simp add: s'_def)
  show ?thesis
    by (rule exI[of _ s']) (intro conjI a b c d f g)
qed

lemma seeded_result:
  assumes ld: "load (testcase_root s2) f = Inr c"
    and keys: "\<forall>t \<in> set (tried s2). map_of t f \<noteq> None"
  shows "\<exists>tr. begin_file ext s2 f = Inr (update_tried ext tr (reduce ext c), testcase_len ext c)
           \<and> (\<forall>h. h \<in> tr \<longleftrightarrow>
                 (\<exists>t \<in> set (tried s2). map_of t f = Some h
                    \<and> set (AList.delete f t)
                      = set (AList.delete f (calculate_testcase_hash ext (testcase_root s2)))))"
proof -
  define tr where
    "tr = {h. \<exists>t \<in> set (tried s2). map_of t f = Some h
               \<and> set (AList.delete f t)
                 = set (AList.delete f (calculate_testcase_hash ext (testcase_root s2)))}"
  have a: "begin_file ext s2 f = Inr (update_tried ext tr (reduce ext c), testcase_len ext c)"
    unfolding tr_def by (rule begin_file_result[OF ld keys])
  have b: "\<forall>h. h \<in> tr \<longleftrightarrow>
                 (\<exists>t \<in> set (tried s2). map_of t f = Some h
                    \<and> set (AList.delete f t)
                      = set (AList.delete f (calculate_testcase_hash ext (testcase_root s2))))"
    unfolding tr_def by (simp only: mem_Collect_eq) simp
  show ?thesis
    by (rule exI[of _ tr]) (intro conjI a b)
qed

text \<open>
  C2. After a rejected candidate the snapshot of the whole root is in the tried cache and
  the estimate of the active file is lower by exactly 1, the other estimates unchanged.
  When the reduction of a file \<open>f\<close> begins, the fingerprint a recorded snapshot has for
  \<open>f\<close> is put into the reducer's skip set if and only if the snapshot's fingerprints for
  every other file equal those of the current root. So a snapshot of a root matches every
  root that differs from it only in the content of \<open>f\<close>, and matches no root in which
  another file has a different fingerprint.
\<close>

theorem rejected_snapshot_seeds_tried:
  assumes est: "map_of (possible_iters_remain s) file = Some v"
    and fb: "current_feedback s \<noteq> Some True"
    and ld: "load (testcase_root s2) f = Inr c"
    and keys: "\<forall>t \<in> set (tried s2). map_of t f \<noteq> None"
  shows "(\<exists>s'. after_yield ext s file q tlen red = Inr (s', q, tlen, False)
           \<and> (\<exists>t \<in> set (tried s'). set t = set (calculate_testcase_hash ext (testcase_root s)))
           \<and> set (tried s) \<subseteq> set (tried s')
           \<and> map_of (possible_iters_remain s') file = Some (v - 1)
           \<and> (\<forall>p. p \<noteq> file \<longrightarrow>
                 map_of (possible_iters_remain s') p = map_of (possible_iters_remain s) p)
           \<and> testcase_root_dirty s' = testcase_root_dirty s)
       \<and> (\<exists>tr. begin_file ext s2 f = Inr (update_tried ext tr (reduce ext c), testcase_len ext c)
           \<and> (\<forall>h. h \<in> tr \<longleftrightarrow>
                 (\<exists>t \<in> set (tried s2). map_of t f = Some h
                    \<and> set (AList.delete f t)
                      = set (AList.delete f (calculate_testcase_hash ext (testcase_root s2))))))
       \<and> set (AList.delete f (calculate_testcase_hash ext (dump f c' tc_root)))
           = set (AList.delete f (calculate_testcase_hash ext tc_root))
       \<and> (distinct (map fst tc_root2) \<and> g \<noteq> f \<and> (g, Regular c1) \<in> set tc_root1
            \<and> (g, Regular c2) \<in> set tc_root2 \<and> fingerprint ext c1 \<noteq> fingerprint ext c2
          \<longrightarrow> set (AList.delete f (calculate_testcase_hash ext tc_root1))
               \<noteq> set (AList.delete f (calculate_testcase_hash ext tc_root2)))"
proof -
  have a: "\<exists>s'. after_yield ext s file q tlen red = Inr (s', q, tlen, False)
           \<and> (\<exists>t \<in> set (tried s'). set t = set (calculate_testcase_hash ext (testcase_root s)))
           \<and> set (tried s) \<subseteq> set (tried s')
           \<and> map_of (possible_iters_remain s') file = Some (v - 1)
           \<and> (\<forall>p. p \<noteq> file \<longrightarrow>
                 map_of (possible_iters_remain s') p = map_of (possible_iters_remain s) p)
           \<and> testcase_root_dirty s' = testcase_root_dirty s"
    by (rule rejected_step[OF est fb])
  have b: "\<exists>tr. begin_file ext s2 f = Inr (update_tried ext tr (reduce ext c), testcase_len ext c)
           \<and> (\<forall>h. h \<in> tr \<longleftrightarrow>
                 (\<exists>t \<in> set (tried s2). map_of t f = Some h
                    \<and> set (AList.delete f t)
                      = set (AList.delete f (calculate_testcase_hash ext (testcase_root s2)))))"
    by (rule seeded_result[OF ld keys])
  have c: "set (AList.delete f (calculate_testcase_hash ext (dump f c' tc_root)))
           = set (AList.delete f (calculate_testcase_hash ext tc_root))"
    by (simp only: hash_dump_other_files)
  have d: "distinct (map fst tc_root2) \<and> g \<noteq> f \<and> (g, Regular c1) \<in> set tc_root1
            \<and> (g, Regular c2) \<in> set tc_root2 \<and> fingerprint ext c1 \<noteq> fingerprint ext c2
          \<longrightarrow> set (AList.delete f (calculate_testcase_hash ext tc_root1))
               \<noteq> set (AList.delete f (calculate_testcase_hash ext tc_root2))"
  proof (intro impI, elim conjE)
    assume "distinct (map fst tc_root2)" "g \<noteq> f" "(g, Regular c1) \<in> set tc_root1"
      "(g, Regular c2) \<in> set tc_root2" "fingerprint ext c1 \<noteq> fingerprint ext c2"
    then show "set (AList.delete f (calculate_testcase_hash ext tc_root1))
               \<noteq> set (AList.delete f (calculate_testcase_hash ext tc_root2))"
      by (rule hash_differs)
  qed
  show ?thesis
    by (rule conjI[OF a conjI[OF b conjI[OF c d]]])
qed

section \<open>Properties of the decrements\<close>

lemma accept_decrement_small:
  "tlen - rlen \<le> 1 \<Longrightarrow> accept_decrement tlen rlen = 2"
  by (simp add: accept_decrement_def Let_def max_def chunk_iters_def)

lemma accept_decrement_large:
  assumes "2 \<le> tlen - rlen"
  shows "accept_decrement tlen rlen
         = chunk_iters (tlen - rlen) (2 * largest_power_of_two_smaller_than (tlen - rlen))"
    and "accept_decrement tlen rlen = possible_iters (tlen - rlen) + 1"
  using assms
  by (simp_all add: accept_decrement_def Let_def max_def possible_iters_def mult.commute)



text \<open>
  C5, as the code has it. When a candidate is accepted, the dirty flag is cleared, the
  tracked length becomes the length of the candidate, and the estimate of the active file
  is lowered by \<open>chunk_iters removed cs\<close>, where \<open>removed\<close> is the larger of 1 and the
  current length minus the length of the candidate, and \<open>cs\<close> is twice the largest power
  of two strictly below \<open>removed\<close> when \<open>removed > 1\<close> and 1 otherwise: by 2 when at most
  one element was removed, and by the chunk formula of the estimator at the removed size
  (the estimator's value plus 1) when two or more were.
\<close>

theorem accepted_candidate_decrement:
  assumes est: "map_of (possible_iters_remain s) file = Some v"
  shows "(\<exists>s'. on_success s file tlen rlen = Inr (s', rlen)
           \<and> \<not> testcase_root_dirty s'
           \<and> map_of (possible_iters_remain s') file = Some (v - accept_decrement tlen rlen)
           \<and> (\<forall>p. p \<noteq> file \<longrightarrow>
                 map_of (possible_iters_remain s') p = map_of (possible_iters_remain s) p))
       \<and> accept_decrement tlen rlen
           = chunk_iters (max 1 (tlen - rlen))
               (if max 1 (tlen - rlen) > 1
                then 2 * largest_power_of_two_smaller_than (max 1 (tlen - rlen)) else 1)
       \<and> (tlen - rlen \<le> 1 \<longrightarrow> accept_decrement tlen rlen = 2)
       \<and> (2 \<le> tlen - rlen \<longrightarrow>
            accept_decrement tlen rlen
              = chunk_iters (tlen - rlen) (2 * largest_power_of_two_smaller_than (tlen - rlen))
            \<and> accept_decrement tlen rlen = possible_iters (tlen - rlen) + 1)"
proof (intro conjI)
  show "\<exists>s'. on_success s file tlen rlen = Inr (s', rlen)
           \<and> \<not> testcase_root_dirty s'
           \<and> map_of (possible_iters_remain s') file = Some (v - accept_decrement tlen rlen)
           \<and> (\<forall>p. p \<noteq> file \<longrightarrow>
                 map_of (possible_iters_remain s') p = map_of (possible_iters_remain s) p)"
    by (rule exI, rule conjI, rule on_success_Some[OF est]) (simp add: AList.update_conv')
  show "accept_decrement tlen rlen
           = chunk_iters (max 1 (tlen - rlen))
               (if max 1 (tlen - rlen) > 1
                then 2 * largest_power_of_two_smaller_than (max 1 (tlen - rlen)) else 1)"
    by (simp add: accept_decrement_def Let_def max_def mult.commute)
  show "tlen - rlen \<le> 1 \<longrightarrow> accept_decrement tlen rlen = 2"
    by (simp add: accept_decrement_small)
  show "2 \<le> tlen - rlen \<longrightarrow>
            accept_decrement tlen rlen
              = chunk_iters (tlen - rlen) (2 * largest_power_of_two_smaller_than (tlen - rlen))
            \<and> accept_decrement tlen rlen = possible_iters (tlen - rlen) + 1"
    using accept_decrement_large by blast
qed

text \<open>
  C5 as stated fails where the accepted candidate is not shorter, as the single candidate
  of the Check variant is: with a current length of 8 and a candidate of length 8 the
  removed size is 0, for which the chunk formula gives 0 and the estimator -1, while the
  code takes 2 off the estimate.
\<close>

theorem accepted_candidate_decrement_counterexample:
  "accept_decrement 8 8 = 2
   \<and> chunk_iters (8 - 8) (2 * largest_power_of_two_smaller_than (8 - 8)) = 0
   \<and> possible_iters (8 - 8) = - 1"
  by code_simp


section \<open>Properties of the length estimate\<close>

lemma sum_list_update:
  fixes est :: "('a \<times> int) list"
  shows "map_of est k = Some v \<Longrightarrow>
   sum_list (map snd (AList.update k w est)) = sum_list (map snd est) - v + w"
  by (induction est) (auto split: if_splits)

lemma keys_update_subset:
  assumes "map_of est k = Some v"
  shows "fst ` set (AList.update k w est) = fst ` set est"
proof -
  from map_of_SomeD[OF assms] have "k \<in> fst ` set est" by force
  then show ?thesis by (auto simp add: AList.dom_update)
qed

lemma keys_delete:
  "fst ` set (AList.delete k est) = fst ` set est - {k}"
  by (force simp add: AList.delete_eq)

lemma finish_within:
  assumes "possible_iters_remain s = []" and "finish s = (out, fr', s')"
  shows "estimates_within fr' s'"
  using assms by (auto simp add: finish_def estimates_within_def split: if_splits)

lemma for_reduction_Inl:
  "for_reduction ext s f r = Inl (c, r', s') \<Longrightarrow>
     next_reduction ext r = Some (c, r') \<and> s' = s\<lparr>testcase_root := dump f c (testcase_root s)\<rparr>"
  by (auto simp add: for_reduction_def split: option.splits)

lemma for_reduction_Inr:
  "for_reduction ext s f r = Inr s' \<Longrightarrow>
     fst ` set (possible_iters_remain s') = fst ` set (possible_iters_remain s) - {f}
     \<and> testcase_root_dirty s' = testcase_root_dirty s"
proof -
  assume "for_reduction ext s f r = Inr s'"
  then have "s' = leave_file
                    (s\<lparr>testcase_root := dump f (best_testcase ext r) (testcase_root s)\<rparr>) f"
    by (auto simp add: for_reduction_def split: option.splits)
  then show ?thesis
    by (simp add: leave_file_def keys_delete)
qed

lemma run_queue_within:
  "fst ` set (possible_iters_remain s) \<subseteq> set q \<Longrightarrow>
   run_queue ext s q = Inr (out, fr', s') \<Longrightarrow> estimates_within fr' s'"
proof (induction ext s q rule: run_queue.induct)
  case (1 ext s)
  then show ?case
    by (auto intro: finish_within)
next
  case (2 ext s f rq)
  from "2.prems"(2) obtain r n where b: "begin_file ext s f = Inr (r, n)"
    by (auto split: sum.splits)
  show ?case
  proof (cases "for_reduction ext s f r")
    case (Inl a)
    obtain c r' s1 where a: "a = (c, r', s1)" by (cases a) auto
    from for_reduction_Inl[OF Inl[unfolded a]]
    have s1: "possible_iters_remain s1 = possible_iters_remain s" by simp
    from "2.prems"(2) b Inl a have "fr' = AtCandidate f rq n c r'" "s' = s1"
      by simp_all
    with s1 "2.prems"(1) show ?thesis
      by (auto simp add: estimates_within_def)
  next
    case (Inr s1)
    from for_reduction_Inr[OF Inr] "2.prems"(1)
    have sub: "fst ` set (possible_iters_remain s1) \<subseteq> set rq" by auto
    from "2.prems"(2) b Inr have "run_queue ext s1 rq = Inr (out, fr', s')"
      by simp
    from "2.IH"[OF b refl Inr sub this] show ?thesis .
  qed
qed

lemma on_served_keys:
  assumes "on_served ext s f q served = (s', q', brk)"
    and "fst ` set (possible_iters_remain s) \<subseteq> insert f (set q)"
  shows "fst ` set (possible_iters_remain s') \<subseteq> insert f (set q')"
proof -
  define s2 where
    "s2 = rescan_files_to_reduce ext
            (s\<lparr>testcase_root := purge_unserved ext (all_files s) served (testcase_root s)\<rparr>)"
  from assms(1) have s': "possible_iters_remain s' = possible_iters_remain s2"
    and q': "q' = sort (remdups (filter (\<lambda>p. p \<in> set (files_to_reduce s2)) q))"
    by (auto simp add: on_served_eq Let_def s2_def)
  have "possible_iters_remain s2
        = filter (\<lambda>(k, v). k \<in> set (files_to_reduce s2)) (possible_iters_remain s)"
    unfolding s2_def by (subst rescan_iters) simp
  then show ?thesis
    using assms(2) unfolding s' q' by auto
qed

lemma after_yield_keys:
  assumes "after_yield ext s f q tlen red = Inr (s', q', n', brk)"
    and "fst ` set (possible_iters_remain s) \<subseteq> insert f (set q)"
  shows "fst ` set (possible_iters_remain s') \<subseteq> insert f (set q')"
proof -
  from assms(1) obtain s1 n1 where
    first: "(if current_feedback s = Some True
             then on_success s f tlen (testcase_len ext red)
             else (case on_failure ext s f of Inl e \<Rightarrow> Inl e | Inr s' \<Rightarrow> Inr (s', tlen)))
            = Inr (s1, n1)"
    by (auto simp add: after_yield_def split: sum.splits)
  have k1: "fst ` set (possible_iters_remain s1) \<subseteq> insert f (set q)"
  proof (cases "current_feedback s = Some True")
    case True
    with first have "on_success s f tlen (testcase_len ext red) = Inr (s1, n1)" by simp
    then obtain v where "map_of (possible_iters_remain s) f = Some v"
      and "possible_iters_remain s1
           = AList.update f (v - accept_decrement tlen (testcase_len ext red))
               (possible_iters_remain s)"
      by (auto simp add: on_success_def iters_sub_def split: option.splits)
    with assms(2) show ?thesis
      by (simp add: keys_update_subset)
  next
    case False
    with first have "on_failure ext s f = Inr s1"
      by (auto split: sum.splits)
    then obtain v where "map_of (possible_iters_remain s) f = Some v"
      and "possible_iters_remain s1 = AList.update f (v - 1) (possible_iters_remain s)"
      by (auto simp add: on_failure_def Let_def iters_sub_def split: option.splits)
    with assms(2) show ?thesis
      by (simp add: keys_update_subset)
  qed
  show ?thesis
  proof (cases "if current_feedback s1 = Some True then current_served s1 else None")
    case None
    with assms(1) first have "s' = s1" "q' = q"
      by (auto simp add: after_yield_def)
    with k1 show ?thesis by simp
  next
    case (Some served)
    with assms(1) first obtain brk' where "on_served ext s1 f q served = (s', q', brk')"
      by (auto simp add: after_yield_def split: prod.splits)
    from on_served_keys[OF this k1] show ?thesis .
  qed
qed

lemma resume_within:
  assumes "estimates_within fr s" and "resume ext (fr, s) = Inr (out, fr', s')"
  shows "estimates_within fr' s'"
proof (cases fr)
  case Created
  have "fst ` set (possible_iters_remain (s\<lparr>testcase_root_dirty := False\<rparr>))
        \<subseteq> set (sort (files_to_reduce s))"
    using assms(1) Created by (simp add: estimates_within_def)
  moreover have "run_queue ext (s\<lparr>testcase_root_dirty := False\<rparr>) (sort (files_to_reduce s))
                 = Inr (out, fr', s')"
    using assms(2) Created by (simp add: resume_def)
  ultimately show ?thesis by (rule run_queue_within)
next
  case (AtCandidate f q tlen red r)
  from assms(1) AtCandidate
  have k: "fst ` set (possible_iters_remain s) \<subseteq> insert f (set q)"
    by (simp add: estimates_within_def)
  from assms(2) AtCandidate obtain s1 q' n' brk where
    ay: "after_yield ext s f q tlen red = Inr (s1, q', n', brk)"
    by (auto simp add: resume_def split: sum.splits)
  from after_yield_keys[OF ay k]
  have k1: "fst ` set (possible_iters_remain s1) \<subseteq> insert f (set q')" .
  show ?thesis
  proof (cases brk)
    case True
    with assms(2) AtCandidate ay
    have "run_queue ext (leave_file s1 f) q' = Inr (out, fr', s')"
      by (simp add: resume_def)
    moreover have "fst ` set (possible_iters_remain (leave_file s1 f)) \<subseteq> set q'"
      using k1 by (auto simp add: leave_file_def keys_delete)
    ultimately show ?thesis by (rule run_queue_within[rotated])
  next
    case False
    show ?thesis
    proof (cases "for_reduction ext s1 f r")
      case (Inl a)
      obtain c r' s2 where a: "a = (c, r', s2)" by (cases a) auto
      from for_reduction_Inl[OF Inl[unfolded a]]
      have s2: "possible_iters_remain s2 = possible_iters_remain s1" by simp
      from assms(2) AtCandidate ay False Inl a
      have "fr' = AtCandidate f q' n' c r'" "s' = s2"
        by (simp_all add: resume_def)
      with s2 k1 show ?thesis
        by (auto simp add: estimates_within_def)
    next
      case (Inr s2)
      from for_reduction_Inr[OF Inr] k1
      have sub: "fst ` set (possible_iters_remain s2) \<subseteq> set q'" by auto
      from assms(2) AtCandidate ay False Inr
      have "run_queue ext s2 q' = Inr (out, fr', s')"
        by (simp add: resume_def)
      from run_queue_within[OF sub this] show ?thesis .
    qed
  qed
next
  case AtFinal
  with assms show ?thesis
    by (auto simp add: resume_def estimates_within_def split: if_splits)
next
  case Exhausted
  with assms show ?thesis
    by (auto simp add: resume_def estimates_within_def)
qed

lemma update_within:
  assumes "estimates_within fr s" and "update ext ok served (fr, s) = (fr1, s1)"
  shows "estimates_within fr1 s1"
  using assms by (cases fr) (force simp add: update_def estimates_within_def)+

lemma init_iters_keys:
  "init_iters ext tc_root ps est = Inr est' \<Longrightarrow>
     fst ` set est' = fst ` set est \<union> set ps"
proof (induction ps arbitrary: est)
  case Nil
  then show ?case by simp
next
  case (Cons p ps)
  from Cons.prems obtain c where c: "load tc_root p = Inr c"
    by (auto split: sum.splits)
  with Cons.prems
  have "init_iters ext tc_root ps
          (AList.update p (cls_possible_iters ext (testcase_len ext c)) est) = Inr est'"
    by simp
  from Cons.IH[OF this] show ?case
    by (auto simp add: AList.dom_update)
qed

lemma init_within:
  assumes "init ext tc_root all = Inr s"
  shows "estimates_within Created s"
proof -
  define s0 where
    "s0 = rescan_files_to_reduce ext
            \<lparr>testcase_root = tc_root, all_files = all, tried = [],
             files_to_reduce = [], possible_iters_remain = [],
             current_feedback = None, current_served = None,
             testcase_root_dirty = False\<rparr>"
  have e0: "possible_iters_remain s0 = []"
    unfolding s0_def by (subst rescan_iters) simp
  from assms obtain est where
    est: "init_iters ext tc_root (files_to_reduce s0) (possible_iters_remain s0) = Inr est"
    and s: "s = s0\<lparr>possible_iters_remain := est, testcase_root_dirty := False\<rparr>"
    by (auto simp add: init_def Let_def s0_def[symmetric] split: sum.splits)
  from init_iters_keys[OF est] e0 show ?thesis
    by (simp add: estimates_within_def s)
qed

lemma stop_len_zero:
  assumes "estimates_within fr s" and "resume ext (fr, s) = Inr (StopIteration, fr', s')"
  shows "len s' = 0 \<and> fr' = Exhausted \<and> \<not> testcase_root_dirty s'"
proof -
  have ex: "fr' = Exhausted"
  proof (cases "fr = Exhausted")
    case True
    with assms(2) show ?thesis by (simp add: resume_def)
  next
    case False
    from resume_stop[OF assms(2) False] show ?thesis by simp
  qed
  from resume_within[OF assms] ex show ?thesis
    by (simp add: estimates_within_def len_def)
qed

lemma rejected_then_next:
  assumes est: "map_of (possible_iters_remain s) file = Some v"
    and fb: "current_feedback s \<noteq> Some True"
    and nx: "next_reduction ext r = Some (c, r')"
  shows "\<exists>s'. resume ext (AtCandidate file q tlen red r, s)
               = Inr (Yield (testcase_root s'), AtCandidate file q tlen c r', s')
             \<and> len s' = len s - 1"
proof -
  define s1 where
    "s1 = s\<lparr>tried := tried_add (calculate_testcase_hash ext (testcase_root s)) (tried s),
            possible_iters_remain := AList.update file (v - 1) (possible_iters_remain s)\<rparr>"
  define s' where "s' = s1\<lparr>testcase_root := dump file c (testcase_root s1)\<rparr>"
  have ay: "after_yield ext s file q tlen red = Inr (s1, q, tlen, False)"
    unfolding s1_def by (rule after_yield_rejected[OF est fb])
  have fr: "for_reduction ext s1 file r = Inl (c, r', s')"
    by (simp add: for_reduction_def nx s'_def)
  have a: "resume ext (AtCandidate file q tlen red r, s)
           = Inr (Yield (testcase_root s'), AtCandidate file q tlen c r', s')"
    by (simp add: resume_def ay fr)
  have "len s' = sum_list (map snd (AList.update file (v - 1) (possible_iters_remain s)))
                 + (if testcase_root_dirty s then 1 else 0)"
    by (simp add: len_def s'_def s1_def)
  then have b: "len s' = len s - 1"
    by (simp add: sum_list_update[OF est] len_def)
  show ?thesis
    by (rule exI[of _ s']) (intro conjI a b)
qed

lemma accepted_then_next:
  assumes est: "map_of (possible_iters_remain s) file = Some v"
    and fb: "current_feedback s = Some True"
    and sv: "current_served s = None"
    and nx: "next_reduction ext r = Some (c, r')"
  shows "\<exists>s'. resume ext (AtCandidate file q tlen red r, s)
               = Inr (Yield (testcase_root s'),
                      AtCandidate file q (testcase_len ext red) c r', s')
             \<and> len s' = len s - accept_decrement tlen (testcase_len ext red)
                         - (if testcase_root_dirty s then 1 else 0)"
proof -
  define s1 where
    "s1 = s\<lparr>testcase_root_dirty := False,
            possible_iters_remain :=
              AList.update file (v - accept_decrement tlen (testcase_len ext red))
                (possible_iters_remain s)\<rparr>"
  define s' where "s' = s1\<lparr>testcase_root := dump file c (testcase_root s1)\<rparr>"
  have succ: "on_success s file tlen (testcase_len ext red) = Inr (s1, testcase_len ext red)"
    unfolding s1_def by (rule on_success_Some[OF est])
  have s1: "current_feedback s1 = Some True" "current_served s1 = None"
    using fb sv by (simp_all add: s1_def)
  have ay: "after_yield ext s file q tlen red = Inr (s1, q, testcase_len ext red, False)"
    by (simp add: after_yield_def fb succ s1)
  have fr: "for_reduction ext s1 file r = Inl (c, r', s')"
    by (simp add: for_reduction_def nx s'_def)
  have a: "resume ext (AtCandidate file q tlen red r, s)
           = Inr (Yield (testcase_root s'),
                  AtCandidate file q (testcase_len ext red) c r', s')"
    by (simp add: resume_def ay fr)
  have "len s' = sum_list (map snd (AList.update file
                     (v - accept_decrement tlen (testcase_len ext red))
                     (possible_iters_remain s)))"
    by (simp add: len_def s'_def s1_def)
  then have b: "len s' = len s - accept_decrement tlen (testcase_len ext red)
                         - (if testcase_root_dirty s then 1 else 0)"
    by (simp add: sum_list_update[OF est] len_def)
  show ?thesis
    by (rule exI[of _ s']) (intro conjI a b)
qed

text \<open>
  C6, as the code has it. The length is always the sum of the estimates plus 1 if the
  dirty flag is set. Resumed after a rejection, with a further candidate of the same file
  to yield, the generator leaves it lower by exactly 1; resumed after an acceptance
  without served files, with a further candidate to yield, lower by the accept decrement
  and by 1 more if the dirty flag was set. The estimates are only of the file under
  reduction and of the files of the reduce queue, from the construction on; so when the
  generator ends, the length is 0 and the dirty flag is cleared.
\<close>

theorem len_is_sum_and_steps:
  "len s = sum_list (map snd (possible_iters_remain s))
           + (if testcase_root_dirty s then 1 else 0)
   \<and> (map_of (possible_iters_remain s) f = Some v \<and> current_feedback s \<noteq> Some True
        \<and> next_reduction ext r = Some (c, r') \<longrightarrow>
        (\<exists>s'. resume ext (AtCandidate f q tlen red r, s)
                = Inr (Yield (testcase_root s'), AtCandidate f q tlen c r', s')
              \<and> len s' = len s - 1))
   \<and> (map_of (possible_iters_remain s) f = Some v \<and> current_feedback s = Some True
        \<and> current_served s = None \<and> next_reduction ext r = Some (c, r') \<longrightarrow>
        (\<exists>s'. resume ext (AtCandidate f q tlen red r, s)
                = Inr (Yield (testcase_root s'),
                       AtCandidate f q (testcase_len ext red) c r', s')
              \<and> len s' = len s - accept_decrement tlen (testcase_len ext red)
                          - (if testcase_root_dirty s then 1 else 0)))
   \<and> (init ext tc_root all = Inr si \<longrightarrow> estimates_within Created si)
   \<and> (estimates_within fr s \<and> resume ext (update ext ok served (fr, s)) = Inr (out, fr', s')
        \<longrightarrow> estimates_within fr' s')
   \<and> (estimates_within fr s \<and> resume ext (fr, s) = Inr (StopIteration, fr', s')
        \<longrightarrow> len s' = 0 \<and> fr' = Exhausted \<and> \<not> testcase_root_dirty s')"
proof (intro conjI impI)
  show "len s = sum_list (map snd (possible_iters_remain s))
           + (if testcase_root_dirty s then 1 else 0)"
    by (simp add: len_def)
next
  assume "map_of (possible_iters_remain s) f = Some v \<and> current_feedback s \<noteq> Some True
        \<and> next_reduction ext r = Some (c, r')"
  then show "\<exists>s'. resume ext (AtCandidate f q tlen red r, s)
                = Inr (Yield (testcase_root s'), AtCandidate f q tlen c r', s')
              \<and> len s' = len s - 1"
    by (elim conjE) (rule rejected_then_next)
next
  assume "map_of (possible_iters_remain s) f = Some v \<and> current_feedback s = Some True
        \<and> current_served s = None \<and> next_reduction ext r = Some (c, r')"
  then show "\<exists>s'. resume ext (AtCandidate f q tlen red r, s)
                = Inr (Yield (testcase_root s'),
                       AtCandidate f q (testcase_len ext red) c r', s')
              \<and> len s' = len s - accept_decrement tlen (testcase_len ext red)
                          - (if testcase_root_dirty s then 1 else 0)"
    by (elim conjE) (rule accepted_then_next)
next
  assume "init ext tc_root all = Inr si"
  then show "estimates_within Created si" by (rule init_within)
next
  assume a: "estimates_within fr s \<and> resume ext (update ext ok served (fr, s)) = Inr (out, fr', s')"
  obtain fr1 s1 where u: "update ext ok served (fr, s) = (fr1, s1)"
    by (cases "update ext ok served (fr, s)") auto
  from a have "estimates_within fr1 s1"
    using update_within[OF _ u] by simp
  moreover from a u have "resume ext (fr1, s1) = Inr (out, fr', s')" by simp
  ultimately show "estimates_within fr' s'" by (rule resume_within)
next
  assume a: "estimates_within fr s \<and> resume ext (fr, s) = Inr (StopIteration, fr', s')"
  then have r: "len s' = 0 \<and> fr' = Exhausted \<and> \<not> testcase_root_dirty s'"
    using stop_len_zero by blast
  from r show "len s' = 0" by simp
  from r show "fr' = Exhausted" by simp
  from r show "\<not> testcase_root_dirty s'" by simp
qed

text \<open>
  C6 as stated fails when a f's candidates end: for a single f of one line the
  length is 2 after construction and at the first yield; the candidate is rejected, the
  decrement of the step is 1, and the generator, resumed, ends with a length of 0.
\<close>

theorem len_step_counterexample:
  "session (planned_collaborators prefixes_plan) len
     [([''a.html''], Regular [''x''])] True [(False, None)]
   = [Inr 2, Inr 2, Inr 0]"
  by code_simp

section \<open>Properties of the Check variant\<close>

lemma check_init_Inr:
  assumes "check_init ext tc_root all = Inr c"
  shows "check_len c = 1 \<and> length (files_to_reduce (base c)) \<le> 1"
  using assms by (auto simp add: check_init_def check_len_def split: sum.splits)

lemma check_update_len:
  "check_update ext ok served (fr, c) = (fr', c') \<Longrightarrow> check_len c' = check_len c"
  by (auto simp add: check_update_def check_len_def split: prod.splits)

lemma check_resume_len:
  assumes "check_resume ext (fr, c) = Inr (out, fr', c')"
  shows "check_len c' = (if fr = Created then 0 else check_len c)"
  using assms
  by (auto simp add: check_resume_def check_len_def Let_def split: sum.splits if_splits)

text \<open>
  C10. For the Check variant the length is 1 from the construction on, and \<open>update\<close> does
  not change it; it is 0 from the first \<open>next()\<close> on the generator, already when the
  single candidate is yielded, and it stays 0 whatever verdicts follow. The file list is
  cut to at most one file at the construction.
\<close>

theorem check_len_one_then_zero:
  "(check_init ext tc_root all = Inr ci \<longrightarrow>
      check_len ci = 1 \<and> length (files_to_reduce (base ci)) \<le> 1)
   \<and> (check_update ext ok served (fr, c) = (fu, cu) \<longrightarrow> check_len cu = check_len c)
   \<and> (check_resume ext (Created, c) = Inr (out, fr', c') \<longrightarrow> check_len c' = 0)
   \<and> (check_len c = 0 \<and> check_resume ext (fr, c) = Inr (out, fr', c') \<longrightarrow> check_len c' = 0)"
proof (intro conjI impI)
  assume "check_init ext tc_root all = Inr ci"
  from check_init_Inr[OF this]
  show "check_len ci = 1" and "length (files_to_reduce (base ci)) \<le> 1" by simp_all
next
  assume "check_update ext ok served (fr, c) = (fu, cu)"
  then show "check_len cu = check_len c" by (rule check_update_len)
next
  assume "check_resume ext (Created, c) = Inr (out, fr', c')"
  from check_resume_len[OF this] show "check_len c' = 0" by simp
next
  assume "check_len c = 0 \<and> check_resume ext (fr, c) = Inr (out, fr', c')"
  then show "check_len c' = 0"
    using check_resume_len[of ext fr c out fr' c'] by (simp split: if_splits)
qed

section \<open>The properties on the scenarios\<close>

text \<open>
  The final yield on the state left by a purge: it is yielded, a rejection raises the
  assertion error, an acceptance ends the generator with the flag cleared.
\<close>

theorem final_yield_then_assert_witness:
  "testcase_root_dirty after_purge
   \<and> run_queue (planned_collaborators prefixes_plan) after_purge []
       = Inr (Yield (testcase_root after_purge), AtFinal, after_purge)
   \<and> resume (planned_collaborators prefixes_plan)
         (update (planned_collaborators prefixes_plan) False None (AtFinal, after_purge))
       = Inl AssertionError
   \<and> resume (planned_collaborators prefixes_plan)
         (update (planned_collaborators prefixes_plan) True None (AtFinal, after_purge))
       = Inr (StopIteration, Exhausted,
              after_purge\<lparr>current_feedback := Some True, current_served := None,
                          testcase_root_dirty := False\<rparr>)
   \<and> \<not> testcase_root_dirty (two_files None None)
   \<and> run_queue (planned_collaborators prefixes_plan) (two_files None None) []
       = Inr (StopIteration, Exhausted, two_files None None)
   \<and> current_feedback (two_files None None) \<noteq> Some True
   \<and> resume (planned_collaborators prefixes_plan) (AtFinal, two_files None None)
       = Inl AssertionError
   \<and> (\<exists>s'. resume (planned_collaborators prefixes_plan)
               (AtCandidate [''b.html''] [] 1 [] ([''z''], None, []), last_file)
             = Inr (StopIteration, Exhausted, s')
          \<and> \<not> testcase_root_dirty s')"
proof -
  let ?E = "planned_collaborators prefixes_plan"
  let ?rb = "([''z''], None, []) :: planned"
  have d: "testcase_root_dirty after_purge"
    by (simp add: after_purge_def)
  have n: "\<not> testcase_root_dirty (two_files None None)"
    and f: "current_feedback (two_files None None) \<noteq> Some True"
    by (simp_all add: two_files_def)
  note one = final_yield_then_assert[where s = after_purge and ext = ?E and served = None]
  note two = final_yield_then_assert[where s = "two_files None None" and ext = ?E]
  have a: "run_queue ?E after_purge [] = Inr (Yield (testcase_root after_purge), AtFinal, after_purge)"
    by (rule one[THEN conjunct1, rule_format, OF d])
  have b: "resume ?E (update ?E False None (AtFinal, after_purge)) = Inl AssertionError"
    by (rule one[THEN conjunct2, THEN conjunct2, THEN conjunct1])
  have c: "resume ?E (update ?E True None (AtFinal, after_purge))
       = Inr (StopIteration, Exhausted,
              after_purge\<lparr>current_feedback := Some True, current_served := None,
                          testcase_root_dirty := False\<rparr>)"
    by (rule one[THEN conjunct2, THEN conjunct2, THEN conjunct2, THEN conjunct1])
  have e: "run_queue ?E (two_files None None) []
           = Inr (StopIteration, Exhausted, two_files None None)"
    by (rule two[THEN conjunct2, THEN conjunct1, rule_format, OF n])
  have g: "resume ?E (AtFinal, two_files None None) = Inl AssertionError"
    by (rule two[THEN conjunct2, THEN conjunct2, THEN conjunct2, THEN conjunct2,
                 THEN conjunct1, rule_format, OF f])
  have "case resume ?E (AtCandidate [''b.html''] [] 1 [] ?rb, last_file) of
          Inr (out, fr', s') \<Rightarrow> out = StopIteration
        | Inl e \<Rightarrow> False"
    by code_simp
  then obtain fr' s' where
    r: "resume ?E (AtCandidate [''b.html''] [] 1 [] ?rb, last_file)
        = Inr (StopIteration, fr', s')"
    by (auto split: sum.splits)
  have ne: "AtCandidate [''b.html''] [] 1 [] ?rb \<noteq> Exhausted"
    by simp
  from final_yield_then_assert
         [where s = last_file and ext = ?E and fr = "AtCandidate [''b.html''] [] 1 [] ?rb"
            and fr' = fr' and s' = s',
          THEN conjunct2, THEN conjunct2, THEN conjunct2, THEN conjunct2, THEN conjunct2,
          rule_format, OF conjI[OF ne r]]
  have "fr' = Exhausted" "\<not> testcase_root_dirty s'"
    by simp_all
  with r have h: "\<exists>s'. resume ?E (AtCandidate [''b.html''] [] 1 [] ?rb, last_file)
             = Inr (StopIteration, Exhausted, s')
          \<and> \<not> testcase_root_dirty s'"
    by blast
  show ?thesis
    by (intro conjI d a b c n e f g h)
qed

text \<open>
  The accepted empty candidate of the file of two lines: a decrement of 5, the
  estimator's value at 2 plus 1; one line removed gives a decrement of 2.
\<close>

theorem accepted_candidate_decrement_witness:
  "map_of (possible_iters_remain (two_files (Some True) None)) [''a.html''] = Some 4
   \<and> (\<exists>s'. on_success (two_files (Some True) None) [''a.html''] 2 0 = Inr (s', 0)
          \<and> \<not> testcase_root_dirty s'
          \<and> map_of (possible_iters_remain s') [''a.html''] = Some (4 - accept_decrement 2 0)
          \<and> map_of (possible_iters_remain s') [''b.html''] = Some 2)
   \<and> accept_decrement 2 0 = 5 \<and> accept_decrement 2 1 = 2
   \<and> accept_decrement 2 0 = possible_iters (2 - 0) + 1"
proof -
  have h: "map_of (possible_iters_remain (two_files (Some True) None)) [''a.html''] = Some 4"
    by (simp add: two_files_def)
  have b: "map_of (possible_iters_remain (two_files (Some True) None)) [''b.html''] = Some 2"
    by (simp add: two_files_def)
  have v: "accept_decrement 2 0 = 5" "accept_decrement 2 1 = 2"
    by code_simp+
  from accepted_candidate_decrement[OF h, of 2 0]
  obtain s' where s': "on_success (two_files (Some True) None) [''a.html''] 2 0 = Inr (s', 0)"
      "\<not> testcase_root_dirty s'"
      "map_of (possible_iters_remain s') [''a.html''] = Some (4 - accept_decrement 2 0)"
      "\<forall>p. p \<noteq> [''a.html''] \<longrightarrow>
         map_of (possible_iters_remain s') p
         = map_of (possible_iters_remain (two_files (Some True) None)) p"
    and large: "accept_decrement 2 0 = possible_iters (2 - 0) + 1"
    by auto
  from s'(4) b have "map_of (possible_iters_remain s') [''b.html''] = Some 2"
    by simp
  with s'(1,2,3) have "\<exists>s'. on_success (two_files (Some True) None) [''a.html''] 2 0 = Inr (s', 0)
          \<and> \<not> testcase_root_dirty s'
          \<and> map_of (possible_iters_remain s') [''a.html''] = Some (4 - accept_decrement 2 0)
          \<and> map_of (possible_iters_remain s') [''b.html''] = Some 2"
    by blast
  with h v large show ?thesis by blast
qed




text \<open>
  A rejection records the snapshot and takes 1 off the estimate of \<^verbatim>\<open>a.html\<close>; in a
  later state the recorded fingerprint of \<^verbatim>\<open>b.html\<close> is in the skip set, as the
  snapshot's \<^verbatim>\<open>a.html\<close> equals the root's, and no other fingerprint is.
\<close>

theorem rejected_snapshot_seeds_tried_witness:
  "map_of (possible_iters_remain (two_files (Some False) None)) [''a.html''] = Some 4
   \<and> current_feedback (two_files (Some False) None) \<noteq> Some True
   \<and> load (testcase_root later_pass) [''b.html''] = Inr [''z'', ''w'']
   \<and> list_all (\<lambda>t. map_of t [''b.html''] \<noteq> None) (tried later_pass)
   \<and> (\<exists>s'. after_yield (planned_collaborators prefixes_plan) (two_files (Some False) None)
               [''a.html''] [[''b.html'']] 2 [] = Inr (s', [[''b.html'']], 2, False)
          \<and> (\<exists>t \<in> set (tried s'). set t = {([''a.html''], []), ([''b.html''], [''z''])})
          \<and> map_of (possible_iters_remain s') [''a.html''] = Some 3
          \<and> map_of (possible_iters_remain s') [''b.html''] = Some 2)
   \<and> (\<exists>tr. begin_file (planned_collaborators prefixes_plan) later_pass [''b.html'']
              = Inr (update_tried (planned_collaborators prefixes_plan) tr
                       (reduce (planned_collaborators prefixes_plan) [''z'', ''w'']), 2)
          \<and> [''z''] \<in> tr \<and> [''w''] \<notin> tr)
   \<and> set (AList.delete [''b.html'']
             (calculate_testcase_hash (planned_collaborators prefixes_plan)
                (dump [''b.html''] [''q''] (testcase_root later_pass))))
       = set (AList.delete [''b.html'']
               (calculate_testcase_hash (planned_collaborators prefixes_plan)
                  (testcase_root later_pass)))
   \<and> distinct (map fst (testcase_root later_pass))
   \<and> ([''a.html''], Regular []) \<in> set (testcase_root (two_files (Some False) None))
   \<and> ([''a.html''], Regular [''x'', ''y'']) \<in> set (testcase_root later_pass)
   \<and> set (AList.delete [''b.html'']
             (calculate_testcase_hash (planned_collaborators prefixes_plan)
                (testcase_root (two_files (Some False) None))))
       \<noteq> set (AList.delete [''b.html'']
               (calculate_testcase_hash (planned_collaborators prefixes_plan)
                  (testcase_root later_pass)))"
proof -
  let ?E = "planned_collaborators prefixes_plan"
  let ?S = "two_files (Some False) None"
  have h1: "map_of (possible_iters_remain ?S) [''a.html''] = Some 4"
    and h2: "current_feedback ?S \<noteq> Some True"
    and b: "map_of (possible_iters_remain ?S) [''b.html''] = Some 2"
    by (simp_all add: two_files_def)
  have h3: "load (testcase_root later_pass) [''b.html''] = Inr [''z'', ''w'']"
    by (simp add: later_pass_def load_def)
  have h4: "\<forall>t \<in> set (tried later_pass). map_of t [''b.html''] \<noteq> None"
    by (simp add: later_pass_def)
  have h4': "list_all (\<lambda>t. map_of t [''b.html''] \<noteq> None) (tried later_pass)"
    by (simp add: later_pass_def)
  have snap: "set (calculate_testcase_hash ?E (testcase_root ?S))
              = {([''a.html''], []), ([''b.html''], [''z''])}"
    by (simp add: calculate_testcase_hash_def two_files_def planned_collaborators_def)
  have len2: "testcase_len ?E [''z'', ''w''] = 2"
    by (simp add: planned_collaborators_def)
  have z: "\<exists>t \<in> set (tried later_pass). map_of t [''b.html''] = Some [''z'']
             \<and> set (AList.delete [''b.html''] t)
               = set (AList.delete [''b.html'']
                       (calculate_testcase_hash ?E (testcase_root later_pass)))"
    by (simp add: later_pass_def calculate_testcase_hash_def planned_collaborators_def
                  AList.delete_eq)
  have w: "\<not> (\<exists>t \<in> set (tried later_pass). map_of t [''b.html''] = Some [''w'']
             \<and> set (AList.delete [''b.html''] t)
               = set (AList.delete [''b.html'']
                       (calculate_testcase_hash ?E (testcase_root later_pass))))"
    by (simp add: later_pass_def)
  note inst = rejected_snapshot_seeds_tried[OF h1 h2 h3 h4, of ?E "[[''b.html'']]" 2 "[]"]
  from inst[THEN conjunct1] obtain s' where s':
    "after_yield ?E ?S [''a.html''] [[''b.html'']] 2 [] = Inr (s', [[''b.html'']], 2, False)"
    "\<exists>t \<in> set (tried s'). set t = set (calculate_testcase_hash ?E (testcase_root ?S))"
    "map_of (possible_iters_remain s') [''a.html''] = Some (4 - 1)"
    "\<forall>p. p \<noteq> [''a.html''] \<longrightarrow>
       map_of (possible_iters_remain s') p = map_of (possible_iters_remain ?S) p"
    by (elim exE conjE, intro that) assumption+
  from s'(4) b have b': "map_of (possible_iters_remain s') [''b.html''] = Some 2"
    by simp
  have first: "\<exists>s'. after_yield ?E ?S [''a.html''] [[''b.html'']] 2 []
                      = Inr (s', [[''b.html'']], 2, False)
          \<and> (\<exists>t \<in> set (tried s'). set t = {([''a.html''], []), ([''b.html''], [''z''])})
          \<and> map_of (possible_iters_remain s') [''a.html''] = Some 3
          \<and> map_of (possible_iters_remain s') [''b.html''] = Some 2"
    using s'(1) s'(2)[unfolded snap] s'(3) b' by (intro exI[of _ s']) simp
  from inst[THEN conjunct2, THEN conjunct1] obtain tr where tr:
    "begin_file ?E later_pass [''b.html'']
     = Inr (update_tried ?E tr (reduce ?E [''z'', ''w'']), testcase_len ?E [''z'', ''w''])"
    "\<forall>h. h \<in> tr \<longleftrightarrow>
       (\<exists>t \<in> set (tried later_pass). map_of t [''b.html''] = Some h
          \<and> set (AList.delete [''b.html''] t)
            = set (AList.delete [''b.html'']
                    (calculate_testcase_hash ?E (testcase_root later_pass))))"
    by (elim exE conjE, intro that) assumption+
  have inz: "[''z''] \<in> tr"
    by (rule iffD2[OF spec[OF tr(2)]]) (rule z)
  have inw: "[''w''] \<notin> tr"
  proof
    assume "[''w''] \<in> tr"
    then have "\<exists>t \<in> set (tried later_pass). map_of t [''b.html''] = Some [''w'']
             \<and> set (AList.delete [''b.html''] t)
               = set (AList.delete [''b.html'']
                       (calculate_testcase_hash ?E (testcase_root later_pass)))"
      by (rule iffD1[OF spec[OF tr(2)]])
    with w show False by (rule notE)
  qed
  have second: "\<exists>tr. begin_file ?E later_pass [''b.html'']
              = Inr (update_tried ?E tr (reduce ?E [''z'', ''w'']), 2)
          \<and> [''z''] \<in> tr \<and> [''w''] \<notin> tr"
    using tr(1)[unfolded len2] inz inw by (intro exI[of _ tr]) simp
  have third: "set (AList.delete [''b.html'']
             (calculate_testcase_hash ?E (dump [''b.html''] [''q''] (testcase_root later_pass))))
       = set (AList.delete [''b.html'']
               (calculate_testcase_hash ?E (testcase_root later_pass)))"
    by (rule rejected_snapshot_seeds_tried[OF h1 h2 h3 h4,
              THEN conjunct2, THEN conjunct2, THEN conjunct1])
  have d1: "distinct (map fst (testcase_root later_pass))"
    and d2: "([''a.html''], Regular []) \<in> set (testcase_root ?S)"
    and d3: "([''a.html''], Regular [''x'', ''y'']) \<in> set (testcase_root later_pass)"
    by (simp_all add: later_pass_def two_files_def)
  have d4: "[''a.html''] \<noteq> [''b.html'']"
    by simp
  have d5: "fingerprint ?E [] \<noteq> fingerprint ?E [''x'', ''y'']"
    by (simp add: planned_collaborators_def)
  have fourth: "set (AList.delete [''b.html''] (calculate_testcase_hash ?E (testcase_root ?S)))
       \<noteq> set (AList.delete [''b.html'']
               (calculate_testcase_hash ?E (testcase_root later_pass)))"
    by (rule rejected_snapshot_seeds_tried[OF h1 h2 h3 h4,
              THEN conjunct2, THEN conjunct2, THEN conjunct2, rule_format,
              OF conjI[OF d1 conjI[OF d4 conjI[OF d2 conjI[OF d3 d5]]]]])
  show ?thesis
    by (intro conjI h1 h2 h3 h4' first second third d1 d2 d3 fourth)
qed

text \<open>
  A rejection with a further candidate takes the length from 6 to 5; the construction
  gives estimates within the files to reduce; the last file's last rejection ends the
  generator with a length of 0.
\<close>

theorem len_is_sum_and_steps_witness:
  "len (two_files (Some False) None) = 6
   \<and> (\<exists>s'. resume (planned_collaborators prefixes_plan)
               (AtCandidate [''a.html''] [[''b.html'']] 2 [] ([''x'', ''y''], None, [[''x'']]),
                two_files (Some False) None)
             = Inr (Yield (testcase_root s'),
                    AtCandidate [''a.html''] [[''b.html'']] 2 [''x'']
                      ([''x'', ''y''], Some [''x''], []), s')
          \<and> len s' = 5)
   \<and> (\<exists>s0. init (planned_collaborators prefixes_plan) check_root True = Inr s0
          \<and> estimates_within Created s0)
   \<and> estimates_within
        (AtCandidate [''b.html''] [] 1 [] (([''z''], None, []) :: planned)) last_file
   \<and> (\<exists>s'. resume (planned_collaborators prefixes_plan)
               (AtCandidate [''b.html''] [] 1 [] ([''z''], None, []), last_file)
             = Inr (StopIteration, Exhausted, s')
          \<and> len s' = 0 \<and> \<not> testcase_root_dirty s')
   \<and> (\<exists>s'. resume (planned_collaborators prefixes_plan)
               (AtCandidate [''a.html''] [[''b.html'']] 2 [] ([], None, [[''x'']]),
                two_files (Some True) None)
             = Inr (Yield (testcase_root s'),
                    AtCandidate [''a.html''] [[''b.html'']] 0 [''x''] ([], Some [''x''], []), s')
          \<and> len s' = 1)
   \<and> estimates_within
        (AtCandidate [''a.html''] [[''b.html'']] 2 [] (([''x'', ''y''], Some [], [[''x'']]) :: planned))
        (two_files None None)
   \<and> (\<exists>out fr' s'. resume (planned_collaborators prefixes_plan)
                      (update (planned_collaborators prefixes_plan) False None
                         (AtCandidate [''a.html''] [[''b.html'']] 2 []
                            ([''x'', ''y''], Some [], [[''x'']]),
                          two_files None None))
                    = Inr (out, fr', s')
          \<and> estimates_within fr' s')"
proof -
  let ?E = "planned_collaborators prefixes_plan"
  let ?S = "two_files (Some False) None"
  let ?r = "([''x'', ''y''], None, [[''x'']]) :: planned"
  let ?rb = "([''z''], None, []) :: planned"
  have l: "len ?S = 6"
    by (simp add: len_def two_files_def)
  have h1: "map_of (possible_iters_remain ?S) [''a.html''] = Some 4
            \<and> current_feedback ?S \<noteq> Some True
            \<and> next_reduction ?E ?r = Some ([''x''], ([''x'', ''y''], Some [''x''], []))"
    by (simp add: two_files_def planned_collaborators_def)
  note one = len_is_sum_and_steps
               [where s = ?S and f = "[''a.html'']" and v = 4 and ext = ?E and r = ?r
                  and c = "[''x'']" and r' = "([''x'', ''y''], Some [''x''], [])"
                  and q = "[[''b.html'']]" and tlen = 2 and red = "[]"]
  from one[THEN conjunct2, THEN conjunct1, rule_format, OF h1] l
  have step: "\<exists>s'. resume ?E (AtCandidate [''a.html''] [[''b.html'']] 2 [] ?r, ?S)
             = Inr (Yield (testcase_root s'),
                    AtCandidate [''a.html''] [[''b.html'']] 2 [''x'']
                      ([''x'', ''y''], Some [''x''], []), s')
          \<and> len s' = 5"
    by simp
  have "case init ?E check_root True of Inr s0 \<Rightarrow> True | Inl e \<Rightarrow> False"
    by code_simp
  then obtain s0 where s0: "init ?E check_root True = Inr s0"
    by (auto split: sum.splits)
  have within0: "estimates_within Created s0"
    by (rule len_is_sum_and_steps
               [where ext = ?E and tc_root = check_root and all = True and si = s0,
                THEN conjunct2, THEN conjunct2, THEN conjunct2, THEN conjunct1,
                rule_format, OF s0])
  have i: "\<exists>s0. init ?E check_root True = Inr s0 \<and> estimates_within Created s0"
    using s0 within0 by blast
  have w: "estimates_within (AtCandidate [''b.html''] [] 1 [] ?rb) last_file"
    by (simp add: estimates_within_def last_file_def)
  have "case resume ?E (AtCandidate [''b.html''] [] 1 [] ?rb, last_file) of
          Inr (out, fr', s') \<Rightarrow> out = StopIteration \<and> fr' = Exhausted
        | Inl e \<Rightarrow> False"
    by code_simp
  then obtain s' where
    r: "resume ?E (AtCandidate [''b.html''] [] 1 [] ?rb, last_file)
        = Inr (StopIteration, Exhausted, s')"
    by (auto split: sum.splits)
  from len_is_sum_and_steps
         [where s = last_file and ext = ?E and fr = "AtCandidate [''b.html''] [] 1 [] ?rb"
            and fr' = Exhausted and s' = s',
          THEN conjunct2, THEN conjunct2, THEN conjunct2, THEN conjunct2, THEN conjunct2,
          rule_format, OF conjI[OF w r]]
  have "len s' = 0 \<and> \<not> testcase_root_dirty s'"
    by simp
  with r have e: "\<exists>s'. resume ?E (AtCandidate [''b.html''] [] 1 [] ?rb, last_file)
             = Inr (StopIteration, Exhausted, s')
          \<and> len s' = 0 \<and> \<not> testcase_root_dirty s'"
    by blast
  let ?T = "two_files (Some True) None"
  let ?ra = "([], None, [[''x'']]) :: planned"
  have lt: "len ?T = 6"
    by (simp add: len_def two_files_def)
  have dt: "\<not> testcase_root_dirty ?T"
    by (simp add: two_files_def)
  have h2: "map_of (possible_iters_remain ?T) [''a.html''] = Some 4
            \<and> current_feedback ?T = Some True \<and> current_served ?T = None
            \<and> next_reduction ?E ?ra = Some ([''x''], ([], Some [''x''], []))"
    by (simp add: two_files_def planned_collaborators_def)
  have tl0: "testcase_len ?E [] = 0"
    by (simp add: planned_collaborators_def)
  have ad: "accept_decrement 2 0 = 5"
    by code_simp
  from len_is_sum_and_steps
         [where s = ?T and f = "[''a.html'']" and v = 4 and ext = ?E and r = ?ra
            and c = "[''x'']" and r' = "([], Some [''x''], [])"
            and q = "[[''b.html'']]" and tlen = 2 and red = "[]",
          THEN conjunct2, THEN conjunct2, THEN conjunct1, rule_format, OF h2]
  have acc: "\<exists>s'. resume ?E (AtCandidate [''a.html''] [[''b.html'']] 2 [] ?ra, ?T)
             = Inr (Yield (testcase_root s'),
                    AtCandidate [''a.html''] [[''b.html'']] 0 [''x''] ([], Some [''x''], []), s')
          \<and> len s' = 1"
    by (simp add: tl0 ad lt dt)
  let ?U = "two_files None None"
  let ?r0 = "([''x'', ''y''], Some [], [[''x'']]) :: planned"
  have wu: "estimates_within (AtCandidate [''a.html''] [[''b.html'']] 2 [] ?r0) ?U"
    by (simp add: estimates_within_def two_files_def)
  have "case resume ?E (update ?E False None
                          (AtCandidate [''a.html''] [[''b.html'']] 2 [] ?r0, ?U)) of
          Inr x \<Rightarrow> True
        | Inl e \<Rightarrow> False"
    by code_simp
  then obtain out fr' s'' where
    ru: "resume ?E (update ?E False None (AtCandidate [''a.html''] [[''b.html'']] 2 [] ?r0, ?U))
         = Inr (out, fr', s'')"
    by (cases "resume ?E (update ?E False None
                            (AtCandidate [''a.html''] [[''b.html'']] 2 [] ?r0, ?U))")
       auto
  from len_is_sum_and_steps
         [where s = ?U and ext = ?E and fr = "AtCandidate [''a.html''] [[''b.html'']] 2 [] ?r0"
            and ok = False and served = None and out = out and fr' = fr' and s' = s'',
          THEN conjunct2, THEN conjunct2, THEN conjunct2, THEN conjunct2, THEN conjunct1,
          rule_format, OF conjI[OF wu ru]]
  have "estimates_within fr' s''" .
  with ru have pres: "\<exists>out fr' s'. resume ?E (update ?E False None
                         (AtCandidate [''a.html''] [[''b.html'']] 2 [] ?r0, ?U))
                    = Inr (out, fr', s')
          \<and> estimates_within fr' s'"
    by blast
  show ?thesis
    by (intro conjI l step i w e acc wu pres)
qed

text \<open>
  Scenario B for the Check variant: after the construction the length is 1 and at most
  one file is kept; at the single yield it is 0, and it is 0 after a rejection and at the
  end.
\<close>

theorem check_len_one_then_zero_witness:
  "\<exists>c0. check_init (planned_collaborators check_only_plan) check_root True = Inr c0
      \<and> check_len c0 = 1 \<and> length (files_to_reduce (base c0)) \<le> 1
      \<and> (\<exists>t fr1 c1. check_resume (planned_collaborators check_only_plan) (Created, c0)
                       = Inr (Yield t, fr1, c1)
             \<and> check_len c1 = 0
             \<and> (\<exists>fr2 c2. check_update (planned_collaborators check_only_plan) False None
                            (fr1, c1) = (fr2, c2)
                   \<and> check_len c2 = 0
                   \<and> (\<exists>out fr3 c3. check_resume (planned_collaborators check_only_plan)
                                      (fr2, c2) = Inr (out, fr3, c3)
                         \<and> check_len c3 = 0)))"
proof -
  let ?E = "planned_collaborators check_only_plan"
  have ev: "case check_init ?E check_root True of
          Inl e \<Rightarrow> False
        | Inr c0 \<Rightarrow>
            (case check_resume ?E (Created, c0) of
               Inl e \<Rightarrow> False
             | Inr (out, fr1, c1) \<Rightarrow>
                 (case out of StopIteration \<Rightarrow> False | Yield t \<Rightarrow>
                    (case check_resume ?E (check_update ?E False None (fr1, c1)) of
                       Inl e \<Rightarrow> False
                     | Inr x \<Rightarrow> True)))"
    by code_simp
  from ev obtain c0 where c0: "check_init ?E check_root True = Inr c0"
    by (auto split: sum.splits)
  from ev c0 have ev2:
    "case check_resume ?E (Created, c0) of
       Inl e \<Rightarrow> False
     | Inr (out, fr1, c1) \<Rightarrow>
         (case out of StopIteration \<Rightarrow> False | Yield t \<Rightarrow>
            (case check_resume ?E (check_update ?E False None (fr1, c1)) of
               Inl e \<Rightarrow> False
             | Inr x \<Rightarrow> True))"
    by simp
  obtain t fr1 c1 where
    r1: "check_resume ?E (Created, c0) = Inr (Yield t, fr1, c1)"
    and ev3: "case check_resume ?E (check_update ?E False None (fr1, c1)) of
                Inl e \<Rightarrow> False
              | Inr x \<Rightarrow> True"
  proof (cases "check_resume ?E (Created, c0)")
    case (Inl e)
    with ev2 show ?thesis by simp
  next
    case (Inr x)
    obtain out fr1 c1 where x: "x = (out, fr1, c1)" by (cases x) auto
    show ?thesis
    proof (cases out)
      case StopIteration
      with ev2 Inr x show ?thesis by simp
    next
      case (Yield t)
      with ev2 Inr x that[of t fr1 c1] show ?thesis by simp
    qed
  qed
  obtain fr2 c2 where u: "check_update ?E False None (fr1, c1) = (fr2, c2)"
    by (cases "check_update ?E False None (fr1, c1)") auto
  obtain out fr3 c3 where
    r2: "check_resume ?E (fr2, c2) = Inr (out, fr3, c3)"
  proof (cases "check_resume ?E (fr2, c2)")
    case (Inl e)
    with ev3 u show ?thesis by simp
  next
    case (Inr x)
    obtain out fr3 c3 where "x = (out, fr3, c3)" by (cases x) auto
    with Inr that show ?thesis by simp
  qed
  note inst = check_len_one_then_zero
         [where ext = ?E and tc_root = check_root and all = True and ci = c0 and c = c0
            and out = "Yield t" and fr' = fr1 and c' = c1]
  from inst[THEN conjunct1, rule_format, OF c0]
  have a: "check_len c0 = 1" "length (files_to_reduce (base c0)) \<le> 1"
    by simp_all
  from inst[THEN conjunct2, THEN conjunct2, THEN conjunct1, rule_format, OF r1]
  have a1: "check_len c1 = 0" .
  from check_len_one_then_zero
         [where ext = ?E and ok = False and served = None and fr = fr1 and c = c1
            and fu = fr2 and cu = c2,
          THEN conjunct2, THEN conjunct1, rule_format, OF u] a1
  have a2: "check_len c2 = 0"
    by simp
  from check_len_one_then_zero
         [where ext = ?E and fr = fr2 and c = c2 and out = out and fr' = fr3 and c' = c3,
          THEN conjunct2, THEN conjunct2, THEN conjunct2, rule_format, OF conjI[OF a2 r2]]
  have b: "check_len c3 = 0" .
  have inner2: "\<exists>out fr3 c3. check_resume ?E (fr2, c2) = Inr (out, fr3, c3)
                   \<and> check_len c3 = 0"
    using r2 b by blast
  have inner1: "\<exists>fr2 c2. check_update ?E False None (fr1, c1) = (fr2, c2)
                   \<and> check_len c2 = 0
                   \<and> (\<exists>out fr3 c3. check_resume ?E (fr2, c2) = Inr (out, fr3, c3)
                         \<and> check_len c3 = 0)"
    using u a2 inner2 by blast
  have inner0: "\<exists>t fr1 c1. check_resume ?E (Created, c0) = Inr (Yield t, fr1, c1)
             \<and> check_len c1 = 0
             \<and> (\<exists>fr2 c2. check_update ?E False None (fr1, c1) = (fr2, c2)
                   \<and> check_len c2 = 0
                   \<and> (\<exists>out fr3 c3. check_resume ?E (fr2, c2) = Inr (out, fr3, c3)
                         \<and> check_len c3 = 0))"
    using r1 a1 inner1 by blast
  show ?thesis
    using c0 a(1,2) inner0 by blast
qed

end
